theory Spec2Isabelle
  imports Complex_Main "HOL-Library.Char_ord" "HOL-Library.List_Lexorder" "HOL-Library.Log_Nat"
begin

section \<open>Data model of the analysis engine\<close>

text \<open>
  The commit records consumed by the analyzers of \<^verbatim>\<open>analyze.js\<close>. JavaScript strings are
  modelled as \<^typ>\<open>string\<close>; the line counts \<^verbatim>\<open>added\<close> and \<^verbatim>\<open>deleted\<close> are the integers
  the parser produces with \<^verbatim>\<open>parseInt\<close> (or \<open>0\<close> for a binary file), modelled as
  \<^typ>\<open>int\<close>. Counts and sums of line counts are exact in the model, as they are in the
  code while they stay below \<open>2\<^sup>5\<^sup>3\<close>; a line count that is not a number (\<^verbatim>\<open>NaN\<close>) is outside
  the data model.
\<close>

record FileChange =
  path :: string
  added :: int
  deleted :: int
  binary :: bool

record Commit =
  hash :: string
  author :: string
  date :: string
  message :: string
  files :: "FileChange list"

subsection \<open>JavaScript containers\<close>

text \<open>
  A JavaScript \<^verbatim>\<open>Map\<close> iterates in insertion order and \<^verbatim>\<open>set\<close> on a present key keeps
  the key's position: an association list, updated in place or extended at the end.
\<close>

type_synonym ('k, 'v) jsmap = "('k \<times> 'v) list"

primrec map_has :: "('k, 'v) jsmap \<Rightarrow> 'k \<Rightarrow> bool" where
  "map_has [] k = False"
| "map_has (kv # m) k = (fst kv = k \<or> map_has m k)"

primrec map_get :: "('k, 'v) jsmap \<Rightarrow> 'k \<Rightarrow> 'v option" where
  "map_get [] k = None"
| "map_get (kv # m) k = (if fst kv = k then Some (snd kv) else map_get m k)"

primrec map_set :: "('k, 'v) jsmap \<Rightarrow> 'k \<Rightarrow> 'v \<Rightarrow> ('k, 'v) jsmap" where
  "map_set [] k v = [(k, v)]"
| "map_set (kv # m) k v = (if fst kv = k then (k, v) # m else kv # map_set m k v)"

text \<open>A JavaScript \<^verbatim>\<open>Set\<close> of strings, also in insertion order: a list without repetition.\<close>

definition set_add :: "'a list \<Rightarrow> 'a \<Rightarrow> 'a list" where
  "set_add s x = (if x \<in> set s then s else s @ [x])"

primrec set_from :: "'a list \<Rightarrow> 'a list \<Rightarrow> 'a list" where
  "set_from s [] = s"
| "set_from s (x # xs) = set_from (set_add s x) xs"

text \<open>
  \<^verbatim>\<open>Array.prototype.sort\<close> with a comparator is stable; for a consistent comparator the
  result is the unique stable sorted arrangement, which insertion from the right computes.
  The parameter \<open>le a b\<close> stands for ``the comparator called on \<open>(a, b)\<close> returns a value
  that is not positive'' (a \<^verbatim>\<open>NaN\<close> result counts as \<open>0\<close>).
\<close>

primrec sort_insert :: "('a \<Rightarrow> 'a \<Rightarrow> bool) \<Rightarrow> 'a \<Rightarrow> 'a list \<Rightarrow> 'a list" where
  "sort_insert le x [] = [x]"
| "sort_insert le x (y # ys) = (if le x y then x # y # ys else y # sort_insert le x ys)"

primrec js_sort :: "('a \<Rightarrow> 'a \<Rightarrow> bool) \<Rightarrow> 'a list \<Rightarrow> 'a list" where
  "js_sort le [] = []"
| "js_sort le (x # xs) = sort_insert le x (js_sort le xs)"

text \<open>
  \<^verbatim>\<open>xs.slice(0, n)\<close>: a negative \<open>n\<close> counts from the end of the array, and the end is
  clamped to the array's bounds.
\<close>

definition slice0 :: "int \<Rightarrow> 'a list \<Rightarrow> 'a list" where
  "slice0 n xs =
     (let len = int (length xs);
          e = (if n < 0 then max (len + n) 0 else min n len)
      in take (nat e) xs)"

section \<open>Hotspot analysis\<close>

text \<open>The aggregate kept per path while walking the commits, and the entry reported.\<close>

record HotspotAcc =
  acc_path :: string
  acc_commits :: nat
  acc_added :: int
  acc_deleted :: int
  acc_authors :: "string list"

record HotspotEntry =
  h_path :: string
  h_commits :: nat
  h_churn :: int
  h_added :: int
  h_deleted :: int
  h_authors :: nat

definition hotspots_file :: "string \<Rightarrow> (string, HotspotAcc) jsmap \<Rightarrow> FileChange \<Rightarrow> (string, HotspotAcc) jsmap" where
  "hotspots_file au m f =
     (let entry = (case map_get m (path f) of
                     Some e \<Rightarrow> e
                   | None \<Rightarrow> \<lparr>acc_path = path f, acc_commits = 0, acc_added = 0, acc_deleted = 0,
                               acc_authors = []\<rparr>)
      in map_set m (path f)
           (entry\<lparr>acc_commits := acc_commits entry + 1,
                  acc_added := acc_added entry + added f,
                  acc_deleted := acc_deleted entry + deleted f,
                  acc_authors := set_add (acc_authors entry) au\<rparr>))"

primrec hotspots_files :: "string \<Rightarrow> (string, HotspotAcc) jsmap \<Rightarrow> FileChange list \<Rightarrow> (string, HotspotAcc) jsmap" where
  "hotspots_files au m [] = m"
| "hotspots_files au m (f # fs) = hotspots_files au (hotspots_file au m f) fs"

primrec hotspots_loop :: "(string, HotspotAcc) jsmap \<Rightarrow> Commit list \<Rightarrow> (string, HotspotAcc) jsmap" where
  "hotspots_loop m [] = m"
| "hotspots_loop m (c # cs) = hotspots_loop (hotspots_files (author c) m (files c)) cs"

definition hotspot_entry :: "HotspotAcc \<Rightarrow> HotspotEntry" where
  "hotspot_entry f =
     \<lparr>h_path = acc_path f, h_commits = acc_commits f, h_churn = acc_added f + acc_deleted f,
      h_added = acc_added f, h_deleted = acc_deleted f, h_authors = length (acc_authors f)\<rparr>"

text \<open>The comparator \<^verbatim>\<open>(a, b) => b.commits - a.commits || b.churn - a.churn\<close>.\<close>

definition hotspots_cmp :: "HotspotEntry \<Rightarrow> HotspotEntry \<Rightarrow> int" where
  "hotspots_cmp a b =
     (let d = int (h_commits b) - int (h_commits a)
      in if d \<noteq> 0 then d else h_churn b - h_churn a)"

definition hotspots :: "Commit list \<Rightarrow> int \<Rightarrow> HotspotEntry list" where
  "hotspots commits topN =
     slice0 topN (js_sort (\<lambda>a b. hotspots_cmp a b \<le> 0)
       (map (\<lambda>kv. hotspot_entry (snd kv)) (hotspots_loop [] commits)))"

section \<open>Temporal coupling\<close>

text \<open>
  A JavaScript number is an IEEE 754 double. A finite double is kept as the rational number
  that it denotes, and an arithmetic operation returns the double nearest to its exact
  result, a tie going to the even significand. \<open>binade q\<close> is the exponent \<open>e\<close> with
  \<open>2\<^sup>e \<le> q < 2\<^sup>e\<^sup>+\<^sup>1\<close>, and the doubles of that binade are the multiples of \<open>2\<^sup>e\<^sup>-\<^sup>5\<^sup>2\<close>. Magnitudes
  in the normal range of the doubles are meant, which holds every quotient of two counts
  below \<open>2\<^sup>5\<^sup>3\<close>.
\<close>

definition binade :: "rat \<Rightarrow> int" where
  "binade q =
     (if 1 \<le> q then int (floorlog 2 (nat \<lfloor>q\<rfloor>)) - 1
      else - int (floorlog 2 (nat (\<lceil>1 / q\<rceil> - 1))))"

definition round_half_even :: "rat \<Rightarrow> int" where
  "round_half_even x =
     (let n = \<lfloor>x\<rfloor>; d = x - of_int n
      in if d < 1 / 2 then n else if 1 / 2 < d then n + 1 else if even n then n else n + 1)"

definition nearest_double :: "rat \<Rightarrow> rat" where
  "nearest_double q =
     (let e = binade q in of_int (round_half_even (q * 2 powi (52 - e))) * 2 powi (e - 52))"

definition to_double :: "rat \<Rightarrow> rat" where
  "to_double q = (if q = 0 then 0 else if 0 < q then nearest_double q else - nearest_double (- q))"

text \<open>
  The numbers that \<^verbatim>\<open>degree\<close> can hold: a finite double, or one of the non-finite results
  of a division by zero.
\<close>

datatype jsnum = Fin rat | PosInf | NegInf | NaN

text \<open>\<^verbatim>\<open>n / d\<close> for two non-negative integers.\<close>

definition js_div :: "nat \<Rightarrow> nat \<Rightarrow> jsnum" where
  "js_div n d =
     (if d = 0 then (if n = 0 then NaN else PosInf) else Fin (to_double (of_nat n / of_nat d)))"

text \<open>
  \<^verbatim>\<open>Math.round(x * 100) / 100\<close>: the product and the quotient are rounded to doubles, and
  \<^verbatim>\<open>Math.round\<close> returns the nearest integer, a half going towards \<open>+\<infinity>\<close>.
\<close>

fun round2 :: "jsnum \<Rightarrow> jsnum" where
  "round2 (Fin q) = Fin (to_double (of_int \<lfloor>to_double (q * 100) + 1 / 2\<rfloor> / 100))"
| "round2 x = x"

text \<open>
  The difference of two numbers, of which the sort only reads the sign; the rounding of a
  difference of two doubles keeps its sign, so the exact difference stands for it.
\<close>

fun js_sub :: "jsnum \<Rightarrow> jsnum \<Rightarrow> jsnum" where
  "js_sub (Fin a) (Fin b) = Fin (a - b)"
| "js_sub NaN _ = NaN"
| "js_sub _ NaN = NaN"
| "js_sub PosInf PosInf = NaN"
| "js_sub NegInf NegInf = NaN"
| "js_sub PosInf _ = PosInf"
| "js_sub NegInf _ = NegInf"
| "js_sub (Fin a) PosInf = NegInf"
| "js_sub (Fin a) NegInf = PosInf"

text \<open>What the sort makes of a comparator result: not positive, with \<^verbatim>\<open>NaN\<close> read as \<open>0\<close>.\<close>

fun cmp_nonpos :: "jsnum \<Rightarrow> bool" where
  "cmp_nonpos (Fin q) = (q \<le> 0)"
| "cmp_nonpos PosInf = False"
| "cmp_nonpos NegInf = True"
| "cmp_nonpos NaN = True"

text \<open>
  \<^verbatim>\<open>key.split(':::')\<close>: the pieces between the non-overlapping occurrences of the separator,
  found from left to right. \<open>acc\<close> is the piece being read. The separator is not empty.
\<close>

function js_split :: "string \<Rightarrow> string \<Rightarrow> string \<Rightarrow> string list" where
  "js_split sep acc [] = [acc]"
| "js_split sep acc (c # cs) =
     (if sep \<noteq> [] \<and> take (length sep) (c # cs) = sep
      then acc # js_split sep [] (drop (length sep) (c # cs))
      else js_split sep (acc @ [c]) cs)"
  by pat_completeness auto
termination
  by (relation "measure (\<lambda>(sep, acc, s). length s)") auto

definition pair_key :: "string \<Rightarrow> string \<Rightarrow> string" where
  "pair_key a b = a @ '':::'' @ b"

definition key_split :: "string \<Rightarrow> string list" where
  "key_split key = js_split '':::'' [] key"

text \<open>The keys set by the two nested loops over \<open>i < j\<close>, in the order of the loops.\<close>

primrec pair_keys :: "string list \<Rightarrow> string list" where
  "pair_keys [] = []"
| "pair_keys (p # ps) = map (pair_key p) ps @ pair_keys ps"

text \<open>\<^verbatim>\<open>m.set(k, (m.get(k) || 0) + 1)\<close>.\<close>

definition bump :: "(string, nat) jsmap \<Rightarrow> string \<Rightarrow> (string, nat) jsmap" where
  "bump m k = map_set m k ((case map_get m k of None \<Rightarrow> 0 | Some n \<Rightarrow> n) + 1)"

primrec bump_all :: "(string, nat) jsmap \<Rightarrow> string list \<Rightarrow> (string, nat) jsmap" where
  "bump_all m [] = m"
| "bump_all m (k # ks) = bump_all (bump m k) ks"

text \<open>
  \<^verbatim>\<open>[...new Set(commit.files.map(f => f.path))].sort()\<close>. The default sort compares
  strings code unit by code unit, a proper prefix first: the lexicographic order of
  \<^typ>\<open>string\<close> by character code.
\<close>

definition commit_paths :: "Commit \<Rightarrow> string list" where
  "commit_paths c = sort (set_from [] (map path (files c)))"

text \<open>The state of the counting loop: the map \<^verbatim>\<open>pairs\<close> and the map \<^verbatim>\<open>fileCounts\<close>.\<close>

definition coupling_commit ::
  "int \<Rightarrow> (string, nat) jsmap \<times> (string, nat) jsmap \<Rightarrow> Commit
     \<Rightarrow> (string, nat) jsmap \<times> (string, nat) jsmap" where
  "coupling_commit maxFilesPerCommit st c =
     (let paths = commit_paths c
      in if int (length paths) < 2 \<or> int (length paths) > maxFilesPerCommit then st
         else (bump_all (fst st) (pair_keys paths), bump_all (snd st) paths))"

primrec coupling_loop ::
  "int \<Rightarrow> (string, nat) jsmap \<times> (string, nat) jsmap \<Rightarrow> Commit list
     \<Rightarrow> (string, nat) jsmap \<times> (string, nat) jsmap" where
  "coupling_loop mx st [] = st"
| "coupling_loop mx st (c # cs) = coupling_loop mx (coupling_commit mx st c) cs"

text \<open>
  An entry of the result. \<^verbatim>\<open>const [fileA, fileB] = key.split(':::')\<close> takes the first two
  pieces; a piece that is not there is \<^verbatim>\<open>undefined\<close>, here \<open>None\<close>.
\<close>

record CouplingPair =
  fileA :: "string option"
  fileB :: "string option"
  coupled :: nat
  degree :: jsnum

fun nth_piece :: "string list \<Rightarrow> nat \<Rightarrow> string option" where
  "nth_piece [] i = None"
| "nth_piece (x # xs) 0 = Some x"
| "nth_piece (x # xs) (Suc i) = nth_piece xs i"

text \<open>\<^verbatim>\<open>fileCounts.get(file) || 0\<close>.\<close>

definition count_or_0 :: "(string, nat) jsmap \<Rightarrow> string option \<Rightarrow> nat" where
  "count_or_0 fileCounts file =
     (case file of None \<Rightarrow> 0
      | Some p \<Rightarrow> (case map_get fileCounts p of None \<Rightarrow> 0 | Some n \<Rightarrow> n))"

definition coupling_pair :: "(string, nat) jsmap \<Rightarrow> string \<times> nat \<Rightarrow> CouplingPair" where
  "coupling_pair fileCounts kc =
     (let pieces = key_split (fst kc);
          a = nth_piece pieces 0;
          b = nth_piece pieces 1;
          totalA = count_or_0 fileCounts a;
          totalB = count_or_0 fileCounts b;
          deg = js_div (snd kc) (min totalA totalB)
      in \<lparr>fileA = a, fileB = b, coupled = snd kc, degree = round2 deg\<rparr>)"

text \<open>The comparator \<^verbatim>\<open>(a, b) => b.coupled - a.coupled || b.degree - a.degree\<close>.\<close>

definition coupling_cmp :: "CouplingPair \<Rightarrow> CouplingPair \<Rightarrow> jsnum" where
  "coupling_cmp a b =
     (let d = int (coupled b) - int (coupled a)
      in if d \<noteq> 0 then Fin (of_int d) else js_sub (degree b) (degree a))"

definition coupling :: "Commit list \<Rightarrow> int \<Rightarrow> int \<Rightarrow> int \<Rightarrow> CouplingPair list" where
  "coupling commits topN minCommits maxFilesPerCommit =
     (let st = coupling_loop maxFilesPerCommit ([], []) commits
      in slice0 topN (js_sort (\<lambda>a b. cmp_nonpos (coupling_cmp a b))
           (map (coupling_pair (snd st))
              (filter (\<lambda>kc. int (snd kc) \<ge> minCommits) (fst st)))))"

section \<open>Code age\<close>

text \<open>
  \<^verbatim>\<open>codeAge\<close> reads the clock (\<^verbatim>\<open>new Date()\<close>) and parses the commits' date strings with the
  host's \<^verbatim>\<open>Date\<close>. Both are parameters of the model: \<open>now\<close> is the clock's reading in
  milliseconds since the epoch, and \<open>parse s\<close> is the instant that \<^verbatim>\<open>new Date(s)\<close> denotes,
  or \<open>None\<close> for an invalid date, whose time value is \<^verbatim>\<open>NaN\<close>. The age in days of a file
  is \<open>None\<close> when it is \<^verbatim>\<open>NaN\<close>.
\<close>

record AgeFile =
  a_path :: string
  a_lastModified :: string
  a_firstSeen :: "string option"
  ageDays :: "int option"

record Buckets =
  fresh :: nat
  recent :: nat
  aging :: nat
  stale :: nat
  ancient :: nat

record CodeAgeReport =
  buckets :: Buckets
  oldest :: "AgeFile list"
  freshest :: "AgeFile list"
  totalFiles :: nat

text \<open>\<^verbatim>\<open>if (!m.has(k)) m.set(k, v)\<close>.\<close>

definition set_if_absent :: "(string, string) jsmap \<Rightarrow> string \<Rightarrow> string \<Rightarrow> (string, string) jsmap" where
  "set_if_absent m k v = (if \<not> map_has m k then map_set m k v else m)"

text \<open>The state of the walk: the map \<^verbatim>\<open>lastModified\<close> and the map \<^verbatim>\<open>firstSeen\<close>.\<close>

primrec codeAge_files ::
  "string \<Rightarrow> (string, string) jsmap \<times> (string, string) jsmap \<Rightarrow> FileChange list
     \<Rightarrow> (string, string) jsmap \<times> (string, string) jsmap" where
  "codeAge_files d st [] = st"
| "codeAge_files d st (f # fs) =
     codeAge_files d (set_if_absent (fst st) (path f) d, set_if_absent (snd st) (path f) d) fs"

primrec codeAge_loop ::
  "(string, string) jsmap \<times> (string, string) jsmap \<Rightarrow> Commit list
     \<Rightarrow> (string, string) jsmap \<times> (string, string) jsmap" where
  "codeAge_loop st [] = st"
| "codeAge_loop st (c # cs) = codeAge_loop (codeAge_files (date c) st (files c)) cs"

text \<open>\<^verbatim>\<open>Math.floor((now - last) / (1000 * 60 * 60 * 24))\<close>.\<close>

definition age_in_days :: "(string \<Rightarrow> int option) \<Rightarrow> int \<Rightarrow> string \<Rightarrow> int option" where
  "age_in_days parse now dateStr =
     (case parse dateStr of None \<Rightarrow> None
      | Some lastMs \<Rightarrow> Some ((now - lastMs) div (1000 * 60 * 60 * 24)))"

definition age_file ::
  "(string \<Rightarrow> int option) \<Rightarrow> int \<Rightarrow> (string, string) jsmap \<Rightarrow> string \<times> string \<Rightarrow> AgeFile" where
  "age_file parse now firstSeen kv =
     \<lparr>a_path = fst kv, a_lastModified = snd kv, a_firstSeen = map_get firstSeen (fst kv),
      ageDays = age_in_days parse now (snd kv)\<rparr>"

text \<open>The chain of comparisons; every comparison with \<^verbatim>\<open>NaN\<close> is false.\<close>

definition bucket_file :: "Buckets \<Rightarrow> AgeFile \<Rightarrow> Buckets" where
  "bucket_file b f =
     (case ageDays f of
        None \<Rightarrow> b\<lparr>ancient := ancient b + 1\<rparr>
      | Some d \<Rightarrow>
          if d \<le> 7 then b\<lparr>fresh := fresh b + 1\<rparr>
          else if d \<le> 30 then b\<lparr>recent := recent b + 1\<rparr>
          else if d \<le> 90 then b\<lparr>aging := aging b + 1\<rparr>
          else if d \<le> 365 then b\<lparr>stale := stale b + 1\<rparr>
          else b\<lparr>ancient := ancient b + 1\<rparr>)"

primrec bucket_files :: "Buckets \<Rightarrow> AgeFile list \<Rightarrow> Buckets" where
  "bucket_files b [] = b"
| "bucket_files b (f # fs) = bucket_files (bucket_file b f) fs"

text \<open>
  The comparators \<^verbatim>\<open>(a, b) => b.ageDays - a.ageDays\<close> and \<^verbatim>\<open>(a, b) => a.ageDays - b.ageDays\<close>;
  a difference with \<^verbatim>\<open>NaN\<close> is \<^verbatim>\<open>NaN\<close>, which the sort reads as \<open>0\<close>. When a date does
  not parse, such a comparator is not consistent and the order of the sorted array is the
  engine's own choice: the order of \<^verbatim>\<open>oldest\<close> and \<^verbatim>\<open>freshest\<close> in the model is the order of
  the code when every date parses.
\<close>

definition oldest_le :: "AgeFile \<Rightarrow> AgeFile \<Rightarrow> bool" where
  "oldest_le a b =
     (case ageDays a of None \<Rightarrow> True
      | Some x \<Rightarrow> (case ageDays b of None \<Rightarrow> True | Some y \<Rightarrow> y - x \<le> 0))"

definition freshest_le :: "AgeFile \<Rightarrow> AgeFile \<Rightarrow> bool" where
  "freshest_le a b =
     (case ageDays a of None \<Rightarrow> True
      | Some x \<Rightarrow> (case ageDays b of None \<Rightarrow> True | Some y \<Rightarrow> x - y \<le> 0))"

definition codeAge :: "(string \<Rightarrow> int option) \<Rightarrow> int \<Rightarrow> Commit list \<Rightarrow> CodeAgeReport" where
  "codeAge parse now commits =
     (let st = codeAge_loop ([], []) commits;
          fs = map (age_file parse now (snd st)) (fst st)
      in \<lparr>buckets = bucket_files \<lparr>fresh = 0, recent = 0, aging = 0, stale = 0, ancient = 0\<rparr> fs,
          oldest = slice0 15 (js_sort oldest_le fs),
          freshest = slice0 15 (js_sort freshest_le fs),
          totalFiles = length fs\<rparr>)"

section \<open>Author contributions\<close>

record AuthorAcc =
  au_name :: string
  au_commits :: nat
  au_added :: int
  au_deleted :: int
  au_files :: "string list"

record AuthorEntry =
  name :: string
  commits :: nat
  total_added :: int
  total_deleted :: int
  filesChanged :: nat

definition authors_file :: "AuthorAcc \<Rightarrow> FileChange \<Rightarrow> AuthorAcc" where
  "authors_file entry f =
     entry\<lparr>au_added := au_added entry + added f,
           au_deleted := au_deleted entry + deleted f,
           au_files := set_add (au_files entry) (path f)\<rparr>"

primrec authors_files :: "AuthorAcc \<Rightarrow> FileChange list \<Rightarrow> AuthorAcc" where
  "authors_files entry [] = entry"
| "authors_files entry (f # fs) = authors_files (authors_file entry f) fs"

definition authors_commit :: "(string, AuthorAcc) jsmap \<Rightarrow> Commit \<Rightarrow> (string, AuthorAcc) jsmap" where
  "authors_commit m c =
     (let entry = (case map_get m (author c) of
                     Some e \<Rightarrow> e
                   | None \<Rightarrow> \<lparr>au_name = author c, au_commits = 0, au_added = 0, au_deleted = 0,
                               au_files = []\<rparr>)
      in map_set m (author c)
           (authors_files (entry\<lparr>au_commits := au_commits entry + 1\<rparr>) (files c)))"

primrec authors_loop :: "(string, AuthorAcc) jsmap \<Rightarrow> Commit list \<Rightarrow> (string, AuthorAcc) jsmap" where
  "authors_loop m [] = m"
| "authors_loop m (c # cs) = authors_loop (authors_commit m c) cs"

definition author_entry :: "AuthorAcc \<Rightarrow> AuthorEntry" where
  "author_entry a =
     \<lparr>name = au_name a, commits = au_commits a, total_added = au_added a,
      total_deleted = au_deleted a, filesChanged = length (au_files a)\<rparr>"

text \<open>The comparator \<^verbatim>\<open>(a, b) => b.commits - a.commits\<close>.\<close>

definition authors :: "Commit list \<Rightarrow> int \<Rightarrow> AuthorEntry list" where
  "authors cs topN =
     slice0 topN (js_sort (\<lambda>a b. int (commits b) - int (commits a) \<le> 0)
       (map (\<lambda>kv. author_entry (snd kv)) (authors_loop [] cs)))"

section \<open>Knowledge silos\<close>

record SiloAcc =
  sa_authors :: "string list"
  sa_commits :: nat

record SiloEntry =
  s_path :: string
  s_author :: string
  s_commits :: nat

definition silos_file :: "string \<Rightarrow> (string, SiloAcc) jsmap \<Rightarrow> FileChange \<Rightarrow> (string, SiloAcc) jsmap" where
  "silos_file au m f =
     (let entry = (case map_get m (path f) of
                     Some e \<Rightarrow> e
                   | None \<Rightarrow> \<lparr>sa_authors = [], sa_commits = 0\<rparr>)
      in map_set m (path f)
           (entry\<lparr>sa_authors := set_add (sa_authors entry) au,
                  sa_commits := sa_commits entry + 1\<rparr>))"

primrec silos_files :: "string \<Rightarrow> (string, SiloAcc) jsmap \<Rightarrow> FileChange list \<Rightarrow> (string, SiloAcc) jsmap" where
  "silos_files au m [] = m"
| "silos_files au m (f # fs) = silos_files au (silos_file au m f) fs"

primrec silos_loop :: "(string, SiloAcc) jsmap \<Rightarrow> Commit list \<Rightarrow> (string, SiloAcc) jsmap" where
  "silos_loop m [] = m"
| "silos_loop m (c # cs) = silos_loop (silos_files (author c) m (files c)) cs"

text \<open>
  The body of the loop that pushes to \<^verbatim>\<open>silos\<close>: under \<^verbatim>\<open>data.authors.size === 1\<close> the set
  is a single author, who is \<^verbatim>\<open>[...data.authors][0]\<close>.
\<close>

definition silo_push :: "int \<Rightarrow> SiloEntry list \<Rightarrow> string \<times> SiloAcc \<Rightarrow> SiloEntry list" where
  "silo_push minCommits silos kv =
     (case sa_authors (snd kv) of
        [a] \<Rightarrow> if int (sa_commits (snd kv)) \<ge> minCommits
               then silos @ [\<lparr>s_path = fst kv, s_author = a, s_commits = sa_commits (snd kv)\<rparr>]
               else silos
      | _ \<Rightarrow> silos)"

primrec silo_pushes :: "int \<Rightarrow> SiloEntry list \<Rightarrow> (string, SiloAcc) jsmap \<Rightarrow> SiloEntry list" where
  "silo_pushes minCommits silos [] = silos"
| "silo_pushes minCommits silos (kv # m) = silo_pushes minCommits (silo_push minCommits silos kv) m"

text \<open>The comparator \<^verbatim>\<open>(a, b) => b.commits - a.commits\<close>.\<close>

definition silo_le :: "SiloEntry \<Rightarrow> SiloEntry \<Rightarrow> bool" where
  "silo_le a b = (int (s_commits b) - int (s_commits a) \<le> 0)"

definition knowledgeSilos :: "Commit list \<Rightarrow> int \<Rightarrow> SiloEntry list" where
  "knowledgeSilos cs minCommits =
     slice0 30 (js_sort silo_le (silo_pushes minCommits [] (silos_loop [] cs)))"

section \<open>Full analysis\<close>

record Summary =
  totalCommits :: nat
  totalAuthors :: nat
  dateRange :: "(string \<times> string) option"

record AnalysisReport =
  summary :: Summary
  r_hotspots :: "HotspotEntry list"
  r_coupling :: "CouplingPair list"
  r_codeAge :: CodeAgeReport
  r_authors :: "AuthorEntry list"
  r_knowledgeSilos :: "SiloEntry list"

text \<open>
  \<^verbatim>\<open>dateRange\<close> is \<^verbatim>\<open>null\<close> (\<open>None\<close>) or the pair (\<^verbatim>\<open>from\<close>, \<^verbatim>\<open>to\<close>). The analyzers are called
  with their default options.
\<close>

definition analyzeAll :: "(string \<Rightarrow> int option) \<Rightarrow> int \<Rightarrow> Commit list \<Rightarrow> AnalysisReport" where
  "analyzeAll parse now cs =
     \<lparr>summary =
        \<lparr>totalCommits = length cs,
         totalAuthors = length (set_from [] (map author cs)),
         dateRange = (case cs of [] \<Rightarrow> None | c # _ \<Rightarrow> Some (date (last cs), date c))\<rparr>,
      r_hotspots = hotspots cs 20,
      r_coupling = coupling cs 20 3 30,
      r_codeAge = codeAge parse now cs,
      r_authors = authors cs 15,
      r_knowledgeSilos = knowledgeSilos cs 2\<rparr>"

section \<open>Runs on the caller's objects\<close>

text \<open>
  The analyzers receive a reference to an array of commit objects that the caller still
  holds. To state what a run may read and what it may change, the caller's objects are kept
  in a heap: an array holds references, a commit object holds its strings and the reference
  of its \<^verbatim>\<open>files\<close> array, a file-change object holds its fields. The world of a run is this
  heap together with the clock and the host's date parser. The objects that an analyzer
  creates (maps, sets, entries, arrays) are reachable from nowhere else before it returns:
  they are the local values of the previous sections.
\<close>

type_synonym addr = nat

record CommitRecord =
  r_hash :: string
  r_author :: string
  r_date :: string
  r_message :: string
  r_files :: addr

datatype jsobj = Array "addr list" | CommitObject CommitRecord | FileObject FileChange

record world =
  w_heap :: "addr \<Rightarrow> jsobj option"
  w_clock :: int
  w_parse :: "string \<Rightarrow> int option"

text \<open>
  What the analyzers do with a reference: iterate an array (\<^verbatim>\<open>for ... of\<close>, \<^verbatim>\<open>map\<close>), read the
  properties of an object, and read the clock (\<^verbatim>\<open>new Date()\<close>). Each operation returns the
  world after it. A reference that does not hold what the analyzer expects (in JavaScript a
  \<^verbatim>\<open>TypeError\<close>, or a run on values that are not commit records) ends the run with \<open>None\<close>.
\<close>

definition read_array :: "addr \<Rightarrow> world \<Rightarrow> addr list option \<times> world" where
  "read_array a w = ((case w_heap w a of Some (Array xs) \<Rightarrow> Some xs | _ \<Rightarrow> None), w)"

definition read_record :: "addr \<Rightarrow> world \<Rightarrow> CommitRecord option \<times> world" where
  "read_record a w = ((case w_heap w a of Some (CommitObject c) \<Rightarrow> Some c | _ \<Rightarrow> None), w)"

definition read_file :: "addr \<Rightarrow> world \<Rightarrow> FileChange option \<times> world" where
  "read_file a w = ((case w_heap w a of Some (FileObject f) \<Rightarrow> Some f | _ \<Rightarrow> None), w)"

definition read_clock :: "world \<Rightarrow> int \<times> world" where
  "read_clock w = (w_clock w, w)"

text \<open>
  \<^verbatim>\<open>for (const f of commit.files) body\<close> and \<^verbatim>\<open>for (const commit of commits) body\<close>, with the
  local state \<open>s\<close> of the body.
\<close>

primrec for_files ::
  "('s \<Rightarrow> FileChange \<Rightarrow> 's) \<Rightarrow> 's \<Rightarrow> addr list \<Rightarrow> world \<Rightarrow> 's option \<times> world" where
  "for_files body s [] w = (Some s, w)"
| "for_files body s (a # as) w =
     (case read_file a w of
        (None, w1) \<Rightarrow> (None, w1)
      | (Some f, w1) \<Rightarrow> for_files body (body s f) as w1)"

definition for_files_of ::
  "('s \<Rightarrow> FileChange \<Rightarrow> 's) \<Rightarrow> 's \<Rightarrow> CommitRecord \<Rightarrow> world \<Rightarrow> 's option \<times> world" where
  "for_files_of body s c w =
     (case read_array (r_files c) w of
        (None, w1) \<Rightarrow> (None, w1)
      | (Some as, w1) \<Rightarrow> for_files body s as w1)"

primrec for_commits ::
  "('s \<Rightarrow> CommitRecord \<Rightarrow> world \<Rightarrow> 's option \<times> world) \<Rightarrow> 's \<Rightarrow> addr list \<Rightarrow> world
     \<Rightarrow> 's option \<times> world" where
  "for_commits body s [] w = (Some s, w)"
| "for_commits body s (a # as) w =
     (case read_record a w of
        (None, w1) \<Rightarrow> (None, w1)
      | (Some c, w1) \<Rightarrow>
          (case body s c w1 of
             (None, w2) \<Rightarrow> (None, w2)
           | (Some s', w2) \<Rightarrow> for_commits body s' as w2))"

definition for_commits_of ::
  "('s \<Rightarrow> CommitRecord \<Rightarrow> world \<Rightarrow> 's option \<times> world) \<Rightarrow> 's \<Rightarrow> addr \<Rightarrow> world
     \<Rightarrow> 's option \<times> world" where
  "for_commits_of body s cref w =
     (case read_array cref w of
        (None, w1) \<Rightarrow> (None, w1)
      | (Some as, w1) \<Rightarrow> for_commits body s as w1)"




definition codeAge_run :: "addr \<Rightarrow> world \<Rightarrow> CodeAgeReport option \<times> world" where
  "codeAge_run cref w =
     (case for_commits_of
             (\<lambda>st c. for_files_of
                (\<lambda>st f. (set_if_absent (fst st) (path f) (r_date c),
                          set_if_absent (snd st) (path f) (r_date c))) st c)
             ([], []) cref w of
        (None, w1) \<Rightarrow> (None, w1)
      | (Some st, w1) \<Rightarrow>
          (case read_clock w1 of
             (now, w2) \<Rightarrow>
               (let fs = map (age_file (w_parse w2) now (snd st)) (fst st)
                in (Some \<lparr>buckets = bucket_files
                                      \<lparr>fresh = 0, recent = 0, aging = 0, stale = 0, ancient = 0\<rparr> fs,
                          oldest = slice0 15 (js_sort oldest_le fs),
                          freshest = slice0 15 (js_sort freshest_le fs),
                          totalFiles = length fs\<rparr>, w2))))"



text \<open>
  The commit sequence that a reference denotes in a heap: the value of the objects reachable
  from it, or \<open>None\<close> when it does not hold a commit sequence.
\<close>

primrec load_files :: "(addr \<Rightarrow> jsobj option) \<Rightarrow> addr list \<Rightarrow> FileChange list option" where
  "load_files h [] = Some []"
| "load_files h (a # as) =
     (case h a of
        Some (FileObject f) \<Rightarrow> map_option (\<lambda>fs. f # fs) (load_files h as)
      | _ \<Rightarrow> None)"

definition load_record :: "(addr \<Rightarrow> jsobj option) \<Rightarrow> CommitRecord \<Rightarrow> Commit option" where
  "load_record h c =
     (case h (r_files c) of
        Some (Array as) \<Rightarrow>
          map_option (\<lambda>fs. \<lparr>hash = r_hash c, author = r_author c, date = r_date c,
                            message = r_message c, files = fs\<rparr>) (load_files h as)
      | _ \<Rightarrow> None)"

primrec load_records :: "(addr \<Rightarrow> jsobj option) \<Rightarrow> addr list \<Rightarrow> Commit list option" where
  "load_records h [] = Some []"
| "load_records h (a # as) =
     (case h a of
        Some (CommitObject c) \<Rightarrow>
          (case load_record h c of
             None \<Rightarrow> None
           | Some x \<Rightarrow> map_option (\<lambda>xs. x # xs) (load_records h as))
      | _ \<Rightarrow> None)"

definition load_commits :: "(addr \<Rightarrow> jsobj option) \<Rightarrow> addr \<Rightarrow> Commit list option" where
  "load_commits h cref =
     (case h cref of Some (Array as) \<Rightarrow> load_records h as | _ \<Rightarrow> None)"

section \<open>Reference notions and example inputs\<close>

text \<open>
  The number of commits whose file list touches a path (a commit counts once, however many
  of its change records name the path), and the set of authors of those commits.
\<close>

definition touches :: "Commit \<Rightarrow> string \<Rightarrow> bool" where
  "touches c p = (p \<in> set (map path (files c)))"

definition commits_touching :: "Commit list \<Rightarrow> string \<Rightarrow> nat" where
  "commits_touching cs p = length (filter (\<lambda>c. touches c p) cs)"

definition authors_touching :: "Commit list \<Rightarrow> string \<Rightarrow> string set" where
  "authors_touching cs p = author ` {c \<in> set cs. touches c p}"

text \<open>Every path named by a change record, in the order of the walk.\<close>

definition all_paths :: "Commit list \<Rightarrow> string list" where
  "all_paths cs = concat (map (\<lambda>c. map path (files c)) cs)"

text \<open>The sum of the five buckets.\<close>

definition bucket_sum :: "Buckets \<Rightarrow> nat" where
  "bucket_sum b = fresh b + recent b + aging b + stale b + ancient b"

subsection \<open>The fixture of the test-suite\<close>

text \<open>
  The seven commits of \<^verbatim>\<open>RAW_LOG\<close> in \<^verbatim>\<open>analyze.test.js\<close>, as \<^verbatim>\<open>parseRawLog\<close> returns them. In
  the third one, \<^verbatim>\<open>ghi9012\<close>, the path \<^verbatim>\<open>src/utils.js\<close> has two change records.
\<close>

definition change :: "string \<Rightarrow> int \<Rightarrow> int \<Rightarrow> FileChange" where
  "change p a d = \<lparr>path = p, added = a, deleted = d, binary = False\<rparr>"

definition commit_abc1234 :: Commit where
  "commit_abc1234 =
     \<lparr>hash = ''abc1234'', author = ''Alice'', date = ''2026-02-10T10:00:00+09:00'',
      message = ''Add feature X'',
      files = [change ''src/app.js'' 5 2, change ''src/utils.js'' 10 0]\<rparr>"

definition commit_def5678 :: Commit where
  "commit_def5678 =
     \<lparr>hash = ''def5678'', author = ''Bob'', date = ''2026-02-09T14:00:00+09:00'',
      message = ''Fix bug in app'',
      files = [change ''src/app.js'' 3 1, change ''README.md'' 1 1]\<rparr>"

definition commit_ghi9012 :: Commit where
  "commit_ghi9012 =
     \<lparr>hash = ''ghi9012'', author = ''Alice'', date = ''2026-02-08T09:00:00+09:00'',
      message = ''Refactor utils'',
      files = [change ''src/utils.js'' 0 5, change ''src/utils.js'' 15 0,
               change ''src/app.js'' 2 0]\<rparr>"

definition commit_jkl3456 :: Commit where
  "commit_jkl3456 =
     \<lparr>hash = ''jkl3456'', author = ''Alice'', date = ''2026-02-07T08:00:00+09:00'',
      message = ''Initial commit'',
      files = [change ''src/app.js'' 50 0, change ''src/utils.js'' 30 0,
               change ''README.md'' 10 0]\<rparr>"

definition commit_mno7890 :: Commit where
  "commit_mno7890 =
     \<lparr>hash = ''mno7890'', author = ''Bob'', date = ''2026-02-06T16:00:00+09:00'',
      message = ''Add tests'',
      files = [change ''src/app.test.js'' 20 0, change ''src/app.js'' 5 2]\<rparr>"

definition commit_pqr1234 :: Commit where
  "commit_pqr1234 =
     \<lparr>hash = ''pqr1234'', author = ''Alice'', date = ''2026-02-05T12:00:00+09:00'',
      message = ''Config update'', files = [change ''config.json'' 3 1]\<rparr>"

definition commit_stu5678 :: Commit where
  "commit_stu5678 =
     \<lparr>hash = ''stu5678'', author = ''Alice'', date = ''2026-02-04T11:00:00+09:00'',
      message = ''More config'',
      files = [change ''config.json'' 2 1, change ''src/app.js'' 1 0]\<rparr>"

definition RAW_LOG_commits :: "Commit list" where
  "RAW_LOG_commits =
     [commit_abc1234, commit_def5678, commit_ghi9012, commit_jkl3456, commit_mno7890,
      commit_pqr1234, commit_stu5678]"

text \<open>
  The fragment of the host's date parsing that reads the date of the fixture's first
  commit: \<^verbatim>\<open>new Date('2026-02-10T10:00:00+09:00')\<close> is the instant \<open>1770685200000\<close>. Two
  times of analysis, one day and ten days after that commit.
\<close>

definition parse_sample :: "string \<Rightarrow> int option" where
  "parse_sample s = (if s = ''2026-02-10T10:00:00+09:00'' then Some 1770685200000 else None)"

definition now_next_day :: int where
  "now_next_day = 1770685200000 + 1 * 86400000"

definition now_ten_days :: int where
  "now_ten_days = 1770685200000 + 10 * 86400000"

subsection \<open>Two heaps holding the same commit\<close>

text \<open>
  The fixture's first commit, stored at the addresses \<open>0\<close> to \<open>4\<close> of one heap and at the
  addresses \<open>10\<close> to \<open>14\<close> of another, which holds an unrelated array as well; three worlds
  whose clocks read one day, one day and a second, and ten days after that commit.
\<close>

definition heap_a :: "addr \<Rightarrow> jsobj option" where
  "heap_a = map_of
     [(0, Array [1]),
      (1, CommitObject \<lparr>r_hash = ''abc1234'', r_author = ''Alice'',
                        r_date = ''2026-02-10T10:00:00+09:00'', r_message = ''Add feature X'',
                        r_files = 2\<rparr>),
      (2, Array [3, 4]),
      (3, FileObject (change ''src/app.js'' 5 2)),
      (4, FileObject (change ''src/utils.js'' 10 0))]"


definition world_a :: world where
  "world_a = \<lparr>w_heap = heap_a, w_clock = now_next_day, w_parse = parse_sample\<rparr>"


definition world_late :: world where
  "world_late = \<lparr>w_heap = heap_a, w_clock = now_ten_days, w_parse = parse_sample\<rparr>"

subsection \<open>Paths that contain the separator of the pair keys\<close>

definition commit_colons :: Commit where
  "commit_colons =
     \<lparr>hash = ''c01'', author = ''Alice'', date = ''2026-02-08T09:00:00+09:00'',
      message = ''Add notes'', files = [change ''a:::b'' 1 0, change ''c'' 1 0]\<rparr>"

definition commit_colons_rev :: Commit where
  "commit_colons_rev =
     \<lparr>hash = ''c02'', author = ''Alice'', date = ''2026-02-08T09:00:00+09:00'',
      message = ''Add notes'', files = [change ''b:::a'' 1 0, change ''c'' 1 0]\<rparr>"

definition commit_collision :: Commit where
  "commit_collision =
     \<lparr>hash = ''c03'', author = ''Alice'', date = ''2026-02-08T09:00:00+09:00'',
      message = ''Add notes'',
      files = [change ''a'' 1 0, change ''a:::b'' 1 0, change ''b:::c'' 1 0, change ''c'' 1 0]\<rparr>"

subsection \<open>Notions used in the proofs\<close>

text \<open>Every aggregate is stored under its own path, or its own author name.\<close>

definition hot_inv :: "(string, HotspotAcc) jsmap \<Rightarrow> bool" where
  "hot_inv m \<longleftrightarrow> (\<forall>kv \<in> set m. acc_path (snd kv) = fst kv)"

definition au_inv :: "(string, AuthorAcc) jsmap \<Rightarrow> bool" where
  "au_inv m \<longleftrightarrow> (\<forall>kv \<in> set m. au_name (snd kv) = fst kv)"

text \<open>The condition under which a silo entry is pushed, and the entry pushed.\<close>

definition silo_ok :: "int \<Rightarrow> string \<times> SiloAcc \<Rightarrow> bool" where
  "silo_ok minCommits kv \<longleftrightarrow>
     length (sa_authors (snd kv)) = 1 \<and> int (sa_commits (snd kv)) \<ge> minCommits"

definition silo_entry :: "string \<times> SiloAcc \<Rightarrow> SiloEntry" where
  "silo_entry kv =
     \<lparr>s_path = fst kv, s_author = hd (sa_authors (snd kv)), s_commits = sa_commits (snd kv)\<rparr>"

text \<open>The aggregate of a path in the silo map, or the fresh aggregate when it has none.\<close>

definition sa_of :: "(string, SiloAcc) jsmap \<Rightarrow> string \<Rightarrow> SiloAcc" where
  "sa_of m k = (case map_get m k of Some e \<Rightarrow> e | None \<Rightarrow> \<lparr>sa_authors = [], sa_commits = 0\<rparr>)"

text \<open>The aggregate of a path in the hotspot map, or the fresh aggregate when it has none.\<close>

definition acc_of :: "(string, HotspotAcc) jsmap \<Rightarrow> string \<Rightarrow> HotspotAcc" where
  "acc_of m k =
     (case map_get m k of Some e \<Rightarrow> e
      | None \<Rightarrow> \<lparr>acc_path = k, acc_commits = 0, acc_added = 0, acc_deleted = 0, acc_authors = []\<rparr>)"

text \<open>
  A path without the character \<^verbatim>\<open>:\<close>, and a commit all of whose paths are such; a commit
  that the counting loop of \<^verbatim>\<open>coupling\<close> does not skip; a counter read as \<open>0\<close> when absent;
  and the number of qualifying commits that touch every path of \<open>ps\<close>.
\<close>

definition safe_path :: "string \<Rightarrow> bool" where
  "safe_path p = (CHR '':'' \<notin> set p)"

definition safe_commit :: "Commit \<Rightarrow> bool" where
  "safe_commit c = list_all (\<lambda>f. safe_path (path f)) (files c)"

definition qualifies :: "int \<Rightarrow> Commit \<Rightarrow> bool" where
  "qualifies mx c =
     (\<not> (int (length (commit_paths c)) < 2 \<or> int (length (commit_paths c)) > mx))"

definition count_of :: "(string, nat) jsmap \<Rightarrow> string \<Rightarrow> nat" where
  "count_of m k = (case map_get m k of None \<Rightarrow> 0 | Some n \<Rightarrow> n)"

definition qualifying_with :: "int \<Rightarrow> Commit list \<Rightarrow> string list \<Rightarrow> nat" where
  "qualifying_with mx cs ps =
     length (filter (\<lambda>c. qualifies mx c \<and> set ps \<subseteq> set (commit_paths c)) cs)"

lemmas eval_defs =
  hotspots_def hotspots_file_def hotspot_entry_def hotspots_cmp_def slice0_def set_add_def
  knowledgeSilos_def silos_file_def silo_push_def silo_le_def
  coupling_def coupling_commit_def commit_paths_def pair_key_def key_split_def bump_def
  coupling_pair_def count_or_0_def js_div_def coupling_cmp_def
  codeAge_def set_if_absent_def age_in_days_def age_file_def bucket_file_def
  oldest_le_def freshest_le_def
  authors_def authors_file_def authors_commit_def author_entry_def analyzeAll_def
  touches_def commits_touching_def change_def
  commit_abc1234_def commit_def5678_def commit_ghi9012_def commit_jkl3456_def commit_mno7890_def
  commit_pqr1234_def commit_stu5678_def RAW_LOG_commits_def
  parse_sample_def now_next_day_def now_ten_days_def

section \<open>Agreement with the test-suite\<close>

text \<open>
  The model on the fixture of \<^verbatim>\<open>analyze.test.js\<close> returns what the tests assert: the first
  hotspot is \<^verbatim>\<open>src/app.js\<close> with 6 commits, churn 71 and 2 authors; Alice has 5 commits and
  4 files, Bob 2 commits; \<^verbatim>\<open>config.json\<close> is a silo of Alice and \<^verbatim>\<open>src/app.js\<close> is none;
  \<^verbatim>\<open>src/app.js\<close> and \<^verbatim>\<open>src/utils.js\<close> are coupled 3 times; the summary counts 7 commits
  and 2 authors.
\<close>

lemma fixture_hotspots:
  "map (\<lambda>e. (h_path e, h_commits e, h_churn e, h_authors e)) (hotspots RAW_LOG_commits 20) =
     [(''src/app.js'', 6, 71, 2), (''src/utils.js'', 4, 60, 1), (''README.md'', 2, 12, 2),
      (''config.json'', 2, 7, 1), (''src/app.test.js'', 1, 20, 1)]"
  by code_simp

lemma fixture_hotspots_top: "length (hotspots RAW_LOG_commits 2) = 2"
  by code_simp

lemma fixture_authors:
  "authors RAW_LOG_commits 15 =
     [\<lparr>name = ''Alice'', commits = 5, total_added = 128, total_deleted = 9, filesChanged = 4\<rparr>,
      \<lparr>name = ''Bob'', commits = 2, total_added = 29, total_deleted = 4, filesChanged = 3\<rparr>]"
  by code_simp

lemma fixture_knowledgeSilos:
  "knowledgeSilos RAW_LOG_commits 1 =
     [\<lparr>s_path = ''src/utils.js'', s_author = ''Alice'', s_commits = 4\<rparr>,
      \<lparr>s_path = ''config.json'', s_author = ''Alice'', s_commits = 2\<rparr>,
      \<lparr>s_path = ''src/app.test.js'', s_author = ''Bob'', s_commits = 1\<rparr>]"
  by code_simp

lemma fixture_coupling:
  "coupling RAW_LOG_commits 20 1 30 =
     [\<lparr>fileA = Some ''src/app.js'', fileB = Some ''src/utils.js'', coupled = 3, degree = Fin 1\<rparr>,
      \<lparr>fileA = Some ''README.md'', fileB = Some ''src/app.js'', coupled = 2, degree = Fin 1\<rparr>,
      \<lparr>fileA = Some ''src/app.js'', fileB = Some ''src/app.test.js'', coupled = 1,
         degree = Fin 1\<rparr>,
      \<lparr>fileA = Some ''config.json'', fileB = Some ''src/app.js'', coupled = 1, degree = Fin 1\<rparr>,
      \<lparr>fileA = Some ''README.md'', fileB = Some ''src/utils.js'', coupled = 1,
         degree = Fin (1 / 2)\<rparr>]"
  by code_simp

lemma fixture_coupling_minCommits: "coupling RAW_LOG_commits 20 5 30 = []"
  by code_simp

lemma fixture_summary:
  "summary (analyzeAll parse now RAW_LOG_commits) =
     \<lparr>totalCommits = 7, totalAuthors = 2,
      dateRange = Some (''2026-02-04T11:00:00+09:00'', ''2026-02-10T10:00:00+09:00'')\<rparr>"
  by code_simp

text \<open>
  The rounding of the degree is the rounding of the doubles: for a pair coupled 23 times
  whose rarer file has 40 commits, \<^verbatim>\<open>23 / 40 * 100\<close> is \<^verbatim>\<open>57.49999999999999\<close> and the degree is
  the double \<^verbatim>\<open>0.57\<close>, where the exact quotient would round to \<open>0.58\<close>.
\<close>

lemma degree_23_of_40:
  "round2 (js_div 23 40) = Fin (to_double (57 / 100))
   \<and> to_double (57 / 100) = 5134103575202365 / 9007199254740992
   \<and> \<lfloor>(23 / 40 :: rat) * 100 + 1 / 2\<rfloor> = 58"
  by code_simp

section \<open>Properties of the containers\<close>


subsection \<open>Maps\<close>

lemma map_has_iff: "map_has m k \<longleftrightarrow> k \<in> fst ` set m"
  by (induction m) auto

lemma map_get_map_of: "map_get m k = map_of m k"
  by (induction m) auto

lemma map_get_None_iff: "map_get m k = None \<longleftrightarrow> k \<notin> fst ` set m"
  by (simp add: map_get_map_of map_of_eq_None_iff)

lemma map_get_SomeD: "map_get m k = Some v \<Longrightarrow> (k, v) \<in> set m"
  by (simp add: map_get_map_of map_of_SomeD)

lemma map_get_of_mem: "distinct (map fst m) \<Longrightarrow> (k, v) \<in> set m \<Longrightarrow> map_get m k = Some v"
  by (simp add: map_get_map_of)

lemma keys_map_set:
  "map fst (map_set m k v) = (if k \<in> fst ` set m then map fst m else map fst m @ [k])"
  by (induction m) auto

lemma keys_map_set_add: "map fst (map_set m k v) = set_add (map fst m) k"
  by (simp add: keys_map_set set_add_def)

lemma map_get_map_set:
  "map_get (map_set m k v) k' = (if k' = k then Some v else map_get m k')"
  by (induction m) auto

lemma set_map_set_subset: "set (map_set m k v) \<subseteq> insert (k, v) (set m)"
  by (induction m) auto

subsection \<open>Sets\<close>

lemma set_set_add: "set (set_add s x) = insert x (set s)"
  by (auto simp: set_add_def)

lemma distinct_set_add: "distinct s \<Longrightarrow> distinct (set_add s x)"
  by (simp add: set_add_def)

lemma set_set_from: "set (set_from s xs) = set s \<union> set xs"
  by (induction xs arbitrary: s) (auto simp: set_set_add)

lemma distinct_set_from: "distinct s \<Longrightarrow> distinct (set_from s xs)"
  by (induction xs arbitrary: s) (auto simp: distinct_set_add)

lemma set_from_append: "set_from s (xs @ ys) = set_from (set_from s xs) ys"
  by (induction xs arbitrary: s) auto

subsection \<open>Sorting and slicing\<close>

lemma set_sort_insert: "set (sort_insert le x ys) = insert x (set ys)"
  by (induction ys) auto

lemma set_js_sort: "set (js_sort le xs) = set xs"
  by (induction xs) (auto simp: set_sort_insert)

lemma length_sort_insert: "length (sort_insert le x ys) = Suc (length ys)"
  by (induction ys) auto

lemma length_js_sort: "length (js_sort le xs) = length xs"
  by (induction xs) (auto simp: length_sort_insert)

lemma distinct_map_sort_insert:
  "distinct (map f (sort_insert le x ys)) \<longleftrightarrow> f x \<notin> f ` set ys \<and> distinct (map f ys)"
  by (induction ys) (auto simp: set_sort_insert)

lemma distinct_map_js_sort: "distinct (map f (js_sort le xs)) \<longleftrightarrow> distinct (map f xs)"
  by (induction xs) (auto simp: distinct_map_sort_insert set_js_sort)

lemma sorted_sort_insert:
  assumes tot: "\<And>a b. le a b \<or> le b a" and tr: "\<And>a b c. le a b \<Longrightarrow> le b c \<Longrightarrow> le a c"
  shows "sorted_wrt le ys \<Longrightarrow> sorted_wrt le (sort_insert le x ys)"
proof (induction ys)
  case Nil
  then show ?case by simp
next
  case (Cons y ys)
  show ?case
  proof (cases "le x y")
    case True
    with Cons.prems tr show ?thesis by auto
  next
    case False
    with tot have "le y x" by blast
    with False Cons show ?thesis by (auto simp: set_sort_insert)
  qed
qed

lemma sorted_js_sort:
  assumes tot: "\<And>a b. le a b \<or> le b a" and tr: "\<And>a b c. le a b \<Longrightarrow> le b c \<Longrightarrow> le a c"
  shows "sorted_wrt le (js_sort le xs)"
  by (induction xs) (auto intro: sorted_sort_insert [OF tot tr])

lemma slice0_take: "\<exists>n. slice0 k xs = take n xs"
  by (auto simp: slice0_def Let_def)

lemma slice0_nonneg: "0 \<le> k \<Longrightarrow> slice0 k xs = take (nat k) xs"
  by (simp add: slice0_def Let_def min_def)

lemma set_slice0_subset: "set (slice0 k xs) \<subseteq> set xs"
  using slice0_take [of k xs] by (auto dest: in_set_takeD)

lemma distinct_map_slice0: "distinct (map f xs) \<Longrightarrow> distinct (map f (slice0 k xs))"
  using slice0_take [of k xs] by (auto simp: take_map [symmetric])

lemma sorted_wrt_slice0: "sorted_wrt R xs \<Longrightarrow> sorted_wrt R (slice0 k xs)"
  using slice0_take [of k xs] by (auto simp: sorted_wrt_take)


section \<open>Properties of the analyzers\<close>


subsection \<open>Hotspots: order\<close>

lemma hotspots_cmp_le:
  "hotspots_cmp a b \<le> 0 \<longleftrightarrow>
     h_commits b < h_commits a \<or> (h_commits b = h_commits a \<and> h_churn b \<le> h_churn a)"
  by (auto simp: hotspots_cmp_def Let_def)

lemma hotspots_sorted:
  "sorted_wrt (\<lambda>a b. hotspots_cmp a b \<le> 0) (hotspots cs topN)"
  unfolding hotspots_def
  by (intro sorted_wrt_slice0 sorted_js_sort) (auto simp: hotspots_cmp_le)

subsection \<open>Unique keys\<close>

lemma hot_inv_file: "hot_inv m \<Longrightarrow> hot_inv (hotspots_file au m f)"
  unfolding hot_inv_def hotspots_file_def Let_def
  using set_map_set_subset
  by (fastforce split: option.splits dest: map_get_SomeD)

lemma hot_inv_files: "hot_inv m \<Longrightarrow> hot_inv (hotspots_files au m fs)"
  by (induction fs arbitrary: m) (auto simp: hot_inv_file)

lemma hot_inv_loop: "hot_inv m \<Longrightarrow> hot_inv (hotspots_loop m cs)"
  by (induction cs arbitrary: m) (auto simp: hot_inv_files)

lemma keys_hotspots_file: "map fst (hotspots_file au m f) = set_add (map fst m) (path f)"
  by (simp add: hotspots_file_def Let_def keys_map_set_add)

lemma keys_hotspots_files:
  "map fst (hotspots_files au m fs) = set_from (map fst m) (map path fs)"
  by (induction fs arbitrary: m) (auto simp: keys_hotspots_file)

lemma keys_hotspots_loop:
  "map fst (hotspots_loop m cs) = set_from (map fst m) (all_paths cs)"
  by (induction cs arbitrary: m) (auto simp: keys_hotspots_files all_paths_def set_from_append)

lemma hot_inv_paths: "hot_inv m \<Longrightarrow> map (\<lambda>kv. h_path (hotspot_entry (snd kv))) m = map fst m"
  by (induction m) (auto simp: hot_inv_def hotspot_entry_def)

lemma hotspots_paths_distinct: "distinct (map h_path (hotspots cs topN))"
proof -
  let ?m = "hotspots_loop [] cs"
  have "hot_inv ?m" by (rule hot_inv_loop) (simp add: hot_inv_def)
  then have "map h_path (map (\<lambda>kv. hotspot_entry (snd kv)) ?m) = map fst ?m"
    by (simp add: hot_inv_paths o_def)
  moreover have "distinct (map fst ?m)"
    by (simp add: keys_hotspots_loop distinct_set_from)
  ultimately have "distinct (map h_path (map (\<lambda>kv. hotspot_entry (snd kv)) ?m))"
    by (simp only:)
  then show ?thesis
    unfolding hotspots_def
    by (intro distinct_map_slice0 distinct_map_js_sort [THEN iffD2])
qed

text \<open>The same for the author map, keyed by author name.\<close>

lemma au_name_authors_files: "au_name (authors_files e fs) = au_name e"
  by (induction fs arbitrary: e) (auto simp: authors_file_def)

lemma au_inv_commit: "au_inv m \<Longrightarrow> au_inv (authors_commit m c)"
  unfolding au_inv_def authors_commit_def Let_def
  using set_map_set_subset
  by (fastforce split: option.splits dest: map_get_SomeD simp: au_name_authors_files)

lemma au_inv_loop: "au_inv m \<Longrightarrow> au_inv (authors_loop m cs)"
  by (induction cs arbitrary: m) (auto simp: au_inv_commit)

lemma keys_authors_commit: "map fst (authors_commit m c) = set_add (map fst m) (author c)"
  by (simp add: authors_commit_def Let_def keys_map_set_add)

lemma keys_authors_loop: "map fst (authors_loop m cs) = set_from (map fst m) (map author cs)"
  by (induction cs arbitrary: m) (auto simp: keys_authors_commit)

lemma au_inv_names: "au_inv m \<Longrightarrow> map (\<lambda>kv. name (author_entry (snd kv))) m = map fst m"
  by (induction m) (auto simp: au_inv_def author_entry_def)

lemma authors_names_distinct: "distinct (map name (authors cs topN))"
proof -
  let ?m = "authors_loop [] cs"
  have "au_inv ?m" by (rule au_inv_loop) (simp add: au_inv_def)
  then have "map name (map (\<lambda>kv. author_entry (snd kv)) ?m) = map fst ?m"
    by (simp add: au_inv_names o_def)
  moreover have "distinct (map fst ?m)"
    by (simp add: keys_authors_loop distinct_set_from)
  ultimately have "distinct (map name (map (\<lambda>kv. author_entry (snd kv)) ?m))"
    by (simp only:)
  then show ?thesis
    unfolding authors_def
    by (intro distinct_map_slice0 distinct_map_js_sort [THEN iffD2])
qed

text \<open>The loop that pushes the silo entries is a filter followed by a map.\<close>

lemma silo_push_eq:
  "silo_push mc silos kv = silos @ map silo_entry (filter (silo_ok mc) [kv])"
  by (auto simp: silo_push_def silo_ok_def silo_entry_def split: list.splits)

lemma silo_pushes_eq:
  "silo_pushes mc silos m = silos @ map silo_entry (filter (silo_ok mc) m)"
  by (induction m arbitrary: silos) (auto simp: silo_push_eq)

lemma keys_silos_file: "map fst (silos_file au m f) = set_add (map fst m) (path f)"
  by (simp add: silos_file_def Let_def keys_map_set_add)

lemma keys_silos_files: "map fst (silos_files au m fs) = set_from (map fst m) (map path fs)"
  by (induction fs arbitrary: m) (auto simp: keys_silos_file)

lemma keys_silos_loop: "map fst (silos_loop m cs) = set_from (map fst m) (all_paths cs)"
  by (induction cs arbitrary: m) (auto simp: keys_silos_files all_paths_def set_from_append)

lemma silos_paths_distinct: "distinct (map s_path (knowledgeSilos cs mc))"
proof -
  let ?m = "silos_loop [] cs"
  have "distinct (map fst ?m)"
    by (simp add: keys_silos_loop distinct_set_from)
  then have "distinct (map fst (filter (silo_ok mc) ?m))"
    by (rule distinct_map_filter)
  moreover have "map s_path (map silo_entry (filter (silo_ok mc) ?m)) = map fst (filter (silo_ok mc) ?m)"
    by (simp add: silo_entry_def o_def)
  ultimately have "distinct (map s_path (map silo_entry (filter (silo_ok mc) ?m)))"
    by (simp only:)
  then show ?thesis
    unfolding knowledgeSilos_def silo_pushes_eq append_Nil
    by (intro distinct_map_slice0 distinct_map_js_sort [THEN iffD2])
qed



subsection \<open>Code age\<close>

lemma bucket_sum_file: "bucket_sum (bucket_file b f) = Suc (bucket_sum b)"
  by (simp add: bucket_file_def bucket_sum_def split: option.splits)

lemma bucket_sum_files: "bucket_sum (bucket_files b fs) = bucket_sum b + length fs"
  by (induction fs arbitrary: b) (simp_all add: bucket_sum_file)

lemma keys_set_if_absent: "map fst (set_if_absent m k v) = set_add (map fst m) k"
  by (simp add: set_if_absent_def map_has_iff keys_map_set set_add_def)

lemma keys_codeAge_files:
  "map fst (fst (codeAge_files d st fs)) = set_from (map fst (fst st)) (map path fs)"
  by (induction fs arbitrary: st) (simp_all add: keys_set_if_absent)

lemma keys_codeAge_loop:
  "map fst (fst (codeAge_loop st cs)) = set_from (map fst (fst st)) (all_paths cs)"
  by (induction cs arbitrary: st) (simp_all add: keys_codeAge_files all_paths_def set_from_append)

lemma codeAge_totalFiles:
  "totalFiles (codeAge parse now cs) = length (set_from [] (all_paths cs))"
proof -
  have "length (fst (codeAge_loop ([], []) cs)) = length (map fst (fst (codeAge_loop ([], []) cs)))"
    by simp
  also have "\<dots> = length (set_from [] (all_paths cs))"
    by (simp only: keys_codeAge_loop) simp
  finally show ?thesis by (simp add: codeAge_def Let_def)
qed







subsection \<open>Knowledge silos\<close>

lemma sa_of_silos_file:
  "sa_of (silos_file au m f) k =
     (if k = path f
      then (sa_of m k)\<lparr>sa_authors := set_add (sa_authors (sa_of m k)) au,
                       sa_commits := sa_commits (sa_of m k) + 1\<rparr>
      else sa_of m k)"
  by (simp add: silos_file_def sa_of_def Let_def map_get_map_set)

lemma authors_silos_files:
  "set (sa_authors (sa_of (silos_files au m fs) k)) =
     set (sa_authors (sa_of m k)) \<union> (if k \<in> path ` set fs then {au} else {})"
  by (induction fs arbitrary: m) (auto simp: sa_of_silos_file set_set_add)

lemma authors_touching_Cons:
  "authors_touching (c # cs) k =
     (if k \<in> path ` set (files c) then {author c} else {}) \<union> authors_touching cs k"
  by (auto simp: authors_touching_def touches_def)

lemma authors_silos_loop:
  "set (sa_authors (sa_of (silos_loop m cs) k)) =
     set (sa_authors (sa_of m k)) \<union> authors_touching cs k"
proof (induction cs arbitrary: m)
  case Nil
  then show ?case by (simp add: authors_touching_def)
next
  case (Cons c cs)
  show ?case
    by (simp only: silos_loop.simps Cons.IH authors_silos_files authors_touching_Cons Un_assoc)
qed

lemma silo_entry_props:
  assumes mem: "kv \<in> set (silos_loop [] cs)" and ok: "silo_ok mc kv"
  shows "authors_touching cs (s_path (silo_entry kv)) = {s_author (silo_entry kv)}"
    and "int (s_commits (silo_entry kv)) \<ge> mc"
proof -
  let ?m = "silos_loop [] cs"
  have "distinct (map fst ?m)" by (simp add: keys_silos_loop distinct_set_from)
  with mem have "map_get ?m (fst kv) = Some (snd kv)"
    by (intro map_get_of_mem) simp_all
  then have "sa_of ?m (fst kv) = snd kv" by (simp add: sa_of_def)
  with authors_silos_loop [of "[]" cs "fst kv"]
  have au: "set (sa_authors (snd kv)) = authors_touching cs (fst kv)"
    by (simp add: sa_of_def)
  from ok obtain a where a: "sa_authors (snd kv) = [a]"
    by (auto simp: silo_ok_def length_Suc_conv)
  with au show "authors_touching cs (s_path (silo_entry kv)) = {s_author (silo_entry kv)}"
    by (simp add: silo_entry_def)
  from ok show "int (s_commits (silo_entry kv)) \<ge> mc"
    by (simp add: silo_ok_def silo_entry_def)
qed

lemma knowledgeSilos_mem:
  assumes "e \<in> set (knowledgeSilos cs mc)"
  obtains kv where "kv \<in> set (silos_loop [] cs)" "silo_ok mc kv" "e = silo_entry kv"
proof -
  have "set (knowledgeSilos cs mc) \<subseteq> set (js_sort silo_le (silo_pushes mc [] (silos_loop [] cs)))"
    unfolding knowledgeSilos_def by (rule set_slice0_subset)
  with assms have "e \<in> set (js_sort silo_le (silo_pushes mc [] (silos_loop [] cs)))"
    by (rule rev_subsetD)
  then have "e \<in> silo_entry ` set (filter (silo_ok mc) (silos_loop [] cs))"
    by (simp add: set_js_sort silo_pushes_eq)
  with that show thesis by auto
qed

text \<open>A stable sort commutes with a filter.\<close>

lemma sort_insert_first: "\<forall>z \<in> set zs. le x z \<Longrightarrow> sort_insert le x zs = x # zs"
  by (cases zs) auto

lemma filter_sort_insert:
  assumes tr: "\<And>a b c. le a b \<Longrightarrow> le b c \<Longrightarrow> le a c"
  shows "sorted_wrt le ys \<Longrightarrow>
     filter P (sort_insert le x ys) = (if P x then sort_insert le x (filter P ys) else filter P ys)"
proof (induction ys)
  case Nil
  then show ?case by simp
next
  case (Cons y ys)
  show ?case
  proof (cases "le x y")
    case True
    with Cons.prems tr have "\<forall>z \<in> set (y # ys). le x z" by auto
    then have "\<forall>z \<in> set (filter P (y # ys)). le x z" by auto
    then have "sort_insert le x (filter P (y # ys)) = x # filter P (y # ys)"
      by (rule sort_insert_first)
    with True show ?thesis by simp
  next
    case False
    with Cons show ?thesis by simp
  qed
qed

lemma filter_js_sort:
  assumes tot: "\<And>a b. le a b \<or> le b a" and tr: "\<And>a b c. le a b \<Longrightarrow> le b c \<Longrightarrow> le a c"
  shows "filter P (js_sort le xs) = js_sort le (filter P xs)"
proof (induction xs)
  case Nil
  then show ?case by simp
next
  case (Cons x xs)
  have "sorted_wrt le (js_sort le xs)" by (rule sorted_js_sort [OF tot tr])
  then show ?case using Cons.IH by (simp add: filter_sort_insert [OF tr])
qed

lemma silo_le_iff: "silo_le a b \<longleftrightarrow> s_commits b \<le> s_commits a"
  by (simp add: silo_le_def)

lemma filter_sorted_desc:
  "sorted_wrt silo_le xs \<Longrightarrow>
     filter (\<lambda>e. int (s_commits e) \<ge> mc) xs = takeWhile (\<lambda>e. int (s_commits e) \<ge> mc) xs"
proof (induction xs)
  case Nil
  then show ?case by simp
next
  case (Cons x xs)
  show ?case
  proof (cases "int (s_commits x) \<ge> mc")
    case True
    with Cons show ?thesis by simp
  next
    case False
    with Cons.prems have "\<forall>e \<in> set xs. \<not> int (s_commits e) \<ge> mc"
      by (auto simp: silo_le_iff)
    with False show ?thesis by simp
  qed
qed

lemma silo_ok_mono:
  "m1 \<le> m2 \<Longrightarrow>
     filter (silo_ok m2) m = filter (\<lambda>kv. int (sa_commits (snd kv)) \<ge> m2) (filter (silo_ok m1) m)"
  by (induction m) (auto simp: silo_ok_def)




lemma slice0_30: "slice0 30 xs = take 30 xs"
  by (simp add: slice0_def Let_def min_def)

lemma silo_pushes_mono:
  assumes "m1 \<le> m2"
  shows "silo_pushes m2 [] m = filter (\<lambda>e. int (s_commits e) \<ge> m2) (silo_pushes m1 [] m)"
proof -
  have "map silo_entry (filter (silo_ok m2) m)
          = map silo_entry (filter (\<lambda>kv. int (sa_commits (snd kv)) \<ge> m2) (filter (silo_ok m1) m))"
    by (simp only: silo_ok_mono [OF assms])
  also have "\<dots> = filter (\<lambda>e. int (s_commits e) \<ge> m2) (map silo_entry (filter (silo_ok m1) m))"
    by (simp add: filter_map o_def silo_entry_def)
  finally show ?thesis by (simp only: silo_pushes_eq append_Nil)
qed


lemma knowledgeSilos_mono:
  assumes "m1 \<le> m2"
  shows "set (knowledgeSilos cs m2) \<subseteq> set (knowledgeSilos cs m1)"
proof -
  let ?P = "\<lambda>e. int (s_commits e) \<ge> m2"
  let ?L1 = "silo_pushes m1 [] (silos_loop [] cs)"
  let ?L2 = "silo_pushes m2 [] (silos_loop [] cs)"
  let ?S1 = "js_sort silo_le ?L1"
  have "?L2 = filter ?P ?L1"
    by (rule silo_pushes_mono [OF assms])
  moreover have "filter ?P ?S1 = js_sort silo_le (filter ?P ?L1)"
    by (rule filter_js_sort) (auto simp: silo_le_iff)
  ultimately have "js_sort silo_le ?L2 = filter ?P ?S1"
    by (simp only:)
  also have "\<dots> = takeWhile ?P ?S1"
    by (intro filter_sorted_desc sorted_js_sort) (auto simp: silo_le_iff)
  also have "\<dots> = take (length (takeWhile ?P ?S1)) ?S1"
    by (rule takeWhile_eq_take)
  finally have s2: "js_sort silo_le ?L2 = take (length (takeWhile ?P ?S1)) ?S1" .
  have "knowledgeSilos cs m2 = take 30 (js_sort silo_le ?L2)"
    unfolding knowledgeSilos_def by (rule slice0_30)
  also have "\<dots> = take (min 30 (length (takeWhile ?P ?S1))) ?S1"
    by (simp only: s2 take_take)
  finally have k2: "knowledgeSilos cs m2 = take (min 30 (length (takeWhile ?P ?S1))) ?S1" .
  have k1: "knowledgeSilos cs m1 = take 30 ?S1"
    unfolding knowledgeSilos_def by (rule slice0_30)
  have "set (take (min 30 (length (takeWhile ?P ?S1))) ?S1) \<subseteq> set (take 30 ?S1)"
    by (rule set_take_subset_set_take) simp
  then show ?thesis by (simp only: k1 k2)
qed

text \<open>
  Every entry of \<^verbatim>\<open>knowledgeSilos\<close> names a path whose set of distinct authors, over the
  whole commit sequence, is exactly the entry's \<^verbatim>\<open>author\<close>, and the entry's \<^verbatim>\<open>commits\<close>
  field (the number of change records that name the path) is at least \<^verbatim>\<open>minCommits\<close>. For thresholds \<open>m1 \<le> m2\<close>, the entries
  returned with \<^verbatim>\<open>minCommits = m2\<close> are among those returned with \<^verbatim>\<open>minCommits = m1\<close>, the cap
  of 30 entries included.
\<close>

lemma knowledgeSilos_sole_author_monotone:
  "(\<forall>e \<in> set (knowledgeSilos cs mc).
       authors_touching cs (s_path e) = {s_author e} \<and> int (s_commits e) \<ge> mc)
   \<and> (m1 \<le> m2 \<longrightarrow> set (knowledgeSilos cs m2) \<subseteq> set (knowledgeSilos cs m1))"
proof (intro conjI ballI impI)
  fix e assume "e \<in> set (knowledgeSilos cs mc)"
  then obtain kv where "kv \<in> set (silos_loop [] cs)" "silo_ok mc kv" "e = silo_entry kv"
    by (rule knowledgeSilos_mem)
  then show "authors_touching cs (s_path e) = {s_author e}" "int (s_commits e) \<ge> mc"
    using silo_entry_props by simp_all
next
  assume "m1 \<le> m2"
  then show "set (knowledgeSilos cs m2) \<subseteq> set (knowledgeSilos cs m1)"
    by (rule knowledgeSilos_mono)
qed

subsection \<open>The commits field counts change records\<close>

text \<open>
  The \<^verbatim>\<open>commits\<close> field of an entry of \<^verbatim>\<open>hotspots\<close> or \<^verbatim>\<open>knowledgeSilos\<close> is the number of
  change records that name the entry's path. It is the number of commits that touch the
  path when no commit names a path twice.
\<close>



lemma acc_of_hotspots_file:
  "acc_commits (acc_of (hotspots_file au m f) k) =
     acc_commits (acc_of m k) + (if path f = k then 1 else 0)"
  by (auto simp: hotspots_file_def acc_of_def Let_def map_get_map_set split: option.splits)

lemma acc_of_hotspots_files:
  "acc_commits (acc_of (hotspots_files au m fs) k) =
     acc_commits (acc_of m k) + count_list (map path fs) k"
  by (induction fs arbitrary: m) (simp_all add: acc_of_hotspots_file)

lemma count_list_append: "count_list (xs @ ys) k = count_list xs k + count_list ys k"
  by (induction xs) simp_all

lemma acc_of_hotspots_loop:
  "acc_commits (acc_of (hotspots_loop m cs) k) =
     acc_commits (acc_of m k) + count_list (all_paths cs) k"
  by (induction cs arbitrary: m)
     (simp_all add: acc_of_hotspots_files all_paths_def count_list_append)

lemma hotspots_commits_records:
  assumes "e \<in> set (hotspots cs topN)"
  shows "h_commits e = count_list (all_paths cs) (h_path e)"
proof -
  let ?m = "hotspots_loop [] cs"
  have "set (hotspots cs topN) \<subseteq> set (js_sort (\<lambda>a b. hotspots_cmp a b \<le> 0)
       (map (\<lambda>kv. hotspot_entry (snd kv)) ?m))"
    unfolding hotspots_def by (rule set_slice0_subset)
  with assms obtain kv where kv: "kv \<in> set ?m" and e: "e = hotspot_entry (snd kv)"
    by (auto simp: set_js_sort)
  have "hot_inv ?m" by (rule hot_inv_loop) (simp add: hot_inv_def)
  with kv have p: "acc_path (snd kv) = fst kv" by (simp add: hot_inv_def)
  have "distinct (map fst ?m)" by (simp add: keys_hotspots_loop distinct_set_from)
  with kv have "map_get ?m (fst kv) = Some (snd kv)"
    by (intro map_get_of_mem) simp_all
  then have "acc_of ?m (fst kv) = snd kv" by (simp add: acc_of_def)
  with acc_of_hotspots_loop [of "[]" cs "fst kv"]
  have "acc_commits (snd kv) = count_list (all_paths cs) (fst kv)"
    by (simp add: acc_of_def)
  with e p show ?thesis by (simp add: hotspot_entry_def)
qed

lemma sa_of_commits_file:
  "sa_commits (sa_of (silos_file au m f) k) =
     sa_commits (sa_of m k) + (if path f = k then 1 else 0)"
  by (auto simp: sa_of_silos_file)

lemma sa_of_commits_files:
  "sa_commits (sa_of (silos_files au m fs) k) =
     sa_commits (sa_of m k) + count_list (map path fs) k"
  by (induction fs arbitrary: m) (simp_all add: sa_of_commits_file)

lemma sa_of_commits_loop:
  "sa_commits (sa_of (silos_loop m cs) k) =
     sa_commits (sa_of m k) + count_list (all_paths cs) k"
  by (induction cs arbitrary: m)
     (simp_all add: sa_of_commits_files all_paths_def count_list_append)

lemma silos_commits_records:
  assumes "e \<in> set (knowledgeSilos cs mc)"
  shows "s_commits e = count_list (all_paths cs) (s_path e)"
proof -
  let ?m = "silos_loop [] cs"
  from assms obtain kv where kv: "kv \<in> set ?m" and e: "e = silo_entry kv"
    by (rule knowledgeSilos_mem)
  have "distinct (map fst ?m)" by (simp add: keys_silos_loop distinct_set_from)
  with kv have "map_get ?m (fst kv) = Some (snd kv)"
    by (intro map_get_of_mem) simp_all
  then have "sa_of ?m (fst kv) = snd kv" by (simp add: sa_of_def)
  with sa_of_commits_loop [of "[]" cs "fst kv"]
  have "sa_commits (snd kv) = count_list (all_paths cs) (fst kv)"
    by (simp add: sa_of_def)
  with e show ?thesis by (simp add: silo_entry_def)
qed

lemma count_list_distinct: "distinct xs \<Longrightarrow> count_list xs k = (if k \<in> set xs then 1 else 0)"
  by (induction xs) auto

lemma records_eq_commits_touching:
  assumes "\<forall>c \<in> set cs. distinct (map path (files c))"
  shows "count_list (all_paths cs) p = commits_touching cs p"
  using assms
  by (induction cs)
     (simp_all add: all_paths_def commits_touching_def touches_def count_list_append
        count_list_distinct)

subsection \<open>Coupling on paths without a colon\<close>



text \<open>On paths without a colon, splitting a key gives back the two paths.\<close>

lemma js_split_safe_tail: "safe_path b \<Longrightarrow> js_split '':::'' acc b = [acc @ b]"
  by (induction b arbitrary: acc) (auto simp: safe_path_def)

lemma js_split_safe_head:
  "safe_path a \<Longrightarrow> js_split '':::'' acc (a @ '':::'' @ b) = (acc @ a) # js_split '':::'' [] b"
  by (induction a arbitrary: acc) (auto simp: safe_path_def)

lemma key_split_pair_key:
  "safe_path a \<Longrightarrow> safe_path b \<Longrightarrow> key_split (pair_key a b) = [a, b]"
  using js_split_safe_head [of a "[]" b] js_split_safe_tail [of b "[]"]
  by (simp add: key_split_def pair_key_def)

lemma pair_key_inj:
  assumes "safe_path a" "safe_path b" "safe_path a'" "safe_path b'"
    and "pair_key a b = pair_key a' b'"
  shows "a = a' \<and> b = b'"
proof -
  from assms have "[a, b] = [a', b']"
    by (metis key_split_pair_key)
  then show ?thesis by simp
qed

text \<open>What one commit does to the two maps of counters.\<close>

lemma count_of_bump: "count_of (bump m k) k' = count_of m k' + (if k' = k then 1 else 0)"
  by (simp add: count_of_def bump_def map_get_map_set)

lemma count_of_bump_all: "count_of (bump_all m ks) k = count_of m k + count_list ks k"
  by (induction ks arbitrary: m) (auto simp: count_of_bump)

lemma keys_bump_all: "map fst (bump_all m ks) = set_from (map fst m) ks"
  by (induction ks arbitrary: m) (simp_all add: bump_def keys_map_set_add)

lemma set_commit_paths: "set (commit_paths c) = path ` set (files c)"
  by (simp add: commit_paths_def set_set_from)

lemma distinct_commit_paths: "distinct (commit_paths c)"
  by (simp add: commit_paths_def distinct_set_from)

lemma sorted_commit_paths: "sorted (commit_paths c)"
  by (simp add: commit_paths_def)

lemma coupling_commit_skip: "\<not> qualifies mx c \<Longrightarrow> coupling_commit mx st c = st"
  by (auto simp: qualifies_def coupling_commit_def Let_def)

lemma coupling_commit_fileCounts:
  "qualifies mx c \<Longrightarrow>
     count_of (snd (coupling_commit mx st c)) p =
       count_of (snd st) p + (if p \<in> set (commit_paths c) then 1 else 0)"
  by (auto simp: qualifies_def coupling_commit_def Let_def count_of_bump_all
      count_list_distinct distinct_commit_paths)

lemma count_list_map_pair_key:
  assumes "safe_path p" "\<forall>q \<in> set ps. safe_path q" "distinct ps" "safe_path a" "safe_path b"
  shows "count_list (map (pair_key p) ps) (pair_key a b) = (if a = p \<and> b \<in> set ps then 1 else 0)"
  using assms(2,3)
proof (induction ps)
  case Nil
  then show ?case by simp
next
  case (Cons q ps)
  have "pair_key p q = pair_key a b \<longleftrightarrow> p = a \<and> q = b"
    using pair_key_inj [of p q a b] assms(1,4,5) Cons.prems by auto
  with Cons show ?case by auto
qed

lemma count_list_pair_keys:
  assumes "safe_path a" "safe_path b"
  shows "\<forall>q \<in> set ps. safe_path q \<Longrightarrow> sorted ps \<Longrightarrow> distinct ps \<Longrightarrow>
     count_list (pair_keys ps) (pair_key a b) =
       (if a \<in> set ps \<and> b \<in> set ps \<and> a < b then 1 else 0)"
proof (induction ps)
  case Nil
  then show ?case by simp
next
  case (Cons p ps)
  have lt: "\<forall>q \<in> set ps. p < q" using Cons.prems by (auto simp: less_le)
  have "count_list (map (pair_key p) ps) (pair_key a b) = (if a = p \<and> b \<in> set ps then 1 else 0)"
    using Cons.prems assms by (intro count_list_map_pair_key) auto
  moreover have "count_list (pair_keys ps) (pair_key a b) =
       (if a \<in> set ps \<and> b \<in> set ps \<and> a < b then 1 else 0)"
    using Cons by simp
  ultimately show ?case using lt Cons.prems
    by (auto simp: count_list_append dest: less_asym)
qed

lemma pair_keys_form:
  "sorted ps \<Longrightarrow> distinct ps \<Longrightarrow> k \<in> set (pair_keys ps) \<Longrightarrow>
     \<exists>a b. k = pair_key a b \<and> a \<in> set ps \<and> b \<in> set ps \<and> a < b"
proof (induction ps)
  case Nil
  then show ?case by simp
next
  case (Cons p ps)
  have lt: "\<forall>q \<in> set ps. p < q" using Cons.prems by (auto simp: less_le)
  from Cons.prems(3) consider "k \<in> pair_key p ` set ps" | "k \<in> set (pair_keys ps)" by auto
  then show ?case
  proof cases
    case 1
    with lt show ?thesis by auto
  next
    case 2
    with Cons obtain a b where "k = pair_key a b \<and> a \<in> set ps \<and> b \<in> set ps \<and> a < b"
      by auto
    then show ?thesis by auto
  qed
qed

lemma safe_commit_paths: "safe_commit c \<Longrightarrow> \<forall>q \<in> set (commit_paths c). safe_path q"
  by (auto simp: safe_commit_def set_commit_paths list_all_iff)

lemma coupling_commit_pairs:
  assumes "qualifies mx c" "safe_commit c" "safe_path a" "safe_path b"
  shows "count_of (fst (coupling_commit mx st c)) (pair_key a b) =
       count_of (fst st) (pair_key a b)
       + (if a \<in> set (commit_paths c) \<and> b \<in> set (commit_paths c) \<and> a < b then 1 else 0)"
proof -
  have "count_list (pair_keys (commit_paths c)) (pair_key a b) =
       (if a \<in> set (commit_paths c) \<and> b \<in> set (commit_paths c) \<and> a < b then 1 else 0)"
    using assms
    by (intro count_list_pair_keys safe_commit_paths sorted_commit_paths distinct_commit_paths)
  with assms(1) show ?thesis
    by (simp add: qualifies_def coupling_commit_def Let_def count_of_bump_all)
qed


lemma coupling_loop_fileCounts:
  "count_of (snd (coupling_loop mx st cs)) p =
     count_of (snd st) p
     + length (filter (\<lambda>c. qualifies mx c \<and> set [p] \<subseteq> set (commit_paths c)) cs)"
proof (induction cs arbitrary: st)
  case Nil
  then show ?case by simp
next
  case (Cons c cs)
  show ?case
  proof (cases "qualifies mx c")
    case True
    then show ?thesis by (simp add: Cons.IH coupling_commit_fileCounts)
  next
    case False
    then show ?thesis by (simp add: Cons.IH coupling_commit_skip)
  qed
qed

lemma coupling_loop_pairs:
  assumes "safe_path a" "safe_path b" "a < b"
  shows "\<forall>c \<in> set cs. safe_commit c \<Longrightarrow>
     count_of (fst (coupling_loop mx st cs)) (pair_key a b) =
       count_of (fst st) (pair_key a b)
       + length (filter (\<lambda>c. qualifies mx c \<and> set [a, b] \<subseteq> set (commit_paths c)) cs)"
proof (induction cs arbitrary: st)
  case Nil
  then show ?case by simp
next
  case (Cons c cs)
  show ?case
  proof (cases "qualifies mx c")
    case True
    with Cons.prems assms show ?thesis by (simp add: Cons.IH coupling_commit_pairs)
  next
    case False
    with Cons.prems show ?thesis by (simp add: Cons.IH coupling_commit_skip)
  qed
qed

lemma keys_coupling_commit:
  "map fst (fst (coupling_commit mx st c)) =
     (if qualifies mx c then set_from (map fst (fst st)) (pair_keys (commit_paths c))
      else map fst (fst st))"
  by (auto simp: coupling_commit_def qualifies_def Let_def keys_bump_all)

lemma distinct_keys_coupling_loop:
  "distinct (map fst (fst st)) \<Longrightarrow> distinct (map fst (fst (coupling_loop mx st cs)))"
  by (induction cs arbitrary: st) (simp_all add: keys_coupling_commit distinct_set_from)

lemma keys_coupling_loop:
  "k \<in> set (map fst (fst (coupling_loop mx st cs))) \<Longrightarrow>
     k \<in> set (map fst (fst st))
     \<or> (\<exists>c \<in> set cs. qualifies mx c \<and> k \<in> set (pair_keys (commit_paths c)))"
proof (induction cs arbitrary: st)
  case Nil
  then show ?case by simp
next
  case (Cons c cs)
  from Cons.prems have "k \<in> set (map fst (fst (coupling_loop mx (coupling_commit mx st c) cs)))"
    by simp
  then have "k \<in> set (map fst (fst (coupling_commit mx st c)))
     \<or> (\<exists>c \<in> set cs. qualifies mx c \<and> k \<in> set (pair_keys (commit_paths c)))"
    by (rule Cons.IH)
  then show ?case
    by (auto simp: keys_coupling_commit set_set_from split: if_splits)
qed

lemma length_filter_pos: "0 < length (filter P xs) \<longleftrightarrow> (\<exists>x \<in> set xs. P x)"
  by (induction xs) auto

lemma length_filter_mono:
  "(\<And>x. x \<in> set xs \<Longrightarrow> P x \<Longrightarrow> Q x) \<Longrightarrow> length (filter P xs) \<le> length (filter Q xs)"
  by (induction xs) auto

text \<open>The rounding to a double: the binade of a positive rational, and bounds that the rounding keeps.\<close>


lemma floorlog2_bounds:
  assumes "0 < n"
  shows "0 < floorlog 2 n" and "(2::int) ^ (floorlog 2 n - 1) \<le> int n"
    and "int n + 1 \<le> 2 ^ floorlog 2 n"
proof -
  show "0 < floorlog 2 n" using assms floorlog_eq_zero_iff [of 2 n] by simp
  from assms have b: "2 ^ (floorlog 2 n - 1) \<le> n" "n < 2 ^ floorlog 2 n"
    using floorlog_bounds [of n 2] by simp_all
  from b(1) have "int (2 ^ (floorlog 2 n - 1)) \<le> int n" by (simp only: of_nat_le_iff)
  then show "(2::int) ^ (floorlog 2 n - 1) \<le> int n" by simp
  from b(2) have "int n < int (2 ^ floorlog 2 n)" by (simp only: of_nat_less_iff)
  then have "int n < 2 ^ floorlog 2 n" by simp
  then show "int n + 1 \<le> 2 ^ floorlog 2 n" by linarith
qed

lemma binade_ge1:
  assumes "1 \<le> q"
  shows "2 powi binade q \<le> q" and "q < 2 powi (binade q + 1)"
proof -
  define z where "z = \<lfloor>q\<rfloor>"
  define n where "n = nat z"
  have z: "of_int z \<le> q" "q < of_int z + 1"
    using floor_correct [of q] by (simp_all add: z_def)
  from assms have "of_int 1 \<le> q" by simp
  then have "1 \<le> z" unfolding z_def by (simp only: le_floor_iff)
  then have n: "0 < n" "int n = z" by (simp_all add: n_def)
  note fl = floorlog2_bounds [OF n(1)]
  have e: "binade q = int (floorlog 2 n) - 1"
    using assms by (simp add: binade_def n_def z_def)
  have e1: "binade q = int (floorlog 2 n - 1)" using e fl(1) by simp
  have "(of_int (2 ^ (floorlog 2 n - 1)) :: rat) \<le> of_int z"
    using fl(2) n(2) by (simp only: of_int_le_iff)
  from this z(1) have "(of_int (2 ^ (floorlog 2 n - 1)) :: rat) \<le> q" by (rule order_trans)
  then show "2 powi binade q \<le> q" by (simp add: e1)
  have "(of_int (z + 1) :: rat) \<le> of_int (2 ^ floorlog 2 n)"
    using fl(3) n(2) by (simp only: of_int_le_iff)
  then have "(of_int z :: rat) + 1 \<le> 2 ^ floorlog 2 n" by simp
  from z(2) this have "q < 2 ^ floorlog 2 n" by (rule less_le_trans)
  then show "q < 2 powi (binade q + 1)" by (simp add: e)
qed

lemma binade_lt1:
  assumes "0 < q" "q < 1"
  shows "2 powi binade q \<le> q" and "q < 2 powi (binade q + 1)"
proof -
  define x where "x = 1 / q"
  define c where "c = \<lceil>x\<rceil>"
  define m where "m = nat (c - 1)"
  define k where "k = floorlog 2 m"
  from assms have x: "0 < x" "q = 1 / x" "of_int 1 < x" by (simp_all add: x_def)
  have cx: "x \<le> of_int c" "of_int c - 1 < x"
    using ceiling_correct [of x] by (simp_all add: c_def)
  from x(3) have "1 < c" unfolding c_def by (simp only: less_ceiling_iff)
  then have m: "0 < m" "int m = c - 1" by (simp_all add: m_def)
  note fl = floorlog2_bounds [OF m(1), folded k_def]
  have e: "binade q = - int k"
    using assms by (simp add: binade_def k_def m_def c_def x_def)
  have "c \<le> 2 ^ k" using fl(3) m(2) by simp
  then have "(of_int c :: rat) \<le> of_int (2 ^ k)" by (simp only: of_int_le_iff)
  from cx(1) this have "x \<le> of_int (2 ^ k)" by (rule order_trans)
  then have xk: "x \<le> 2 ^ k" by simp
  have "1 / 2 ^ k \<le> 1 / x" using xk x(1) by (simp add: frac_le)
  moreover have "2 powi binade q = (1::rat) / 2 ^ k" by (simp add: e power_int_minus_divide)
  ultimately show "2 powi binade q \<le> q" by (simp only: x(2) [symmetric])
  have "2 ^ (k - 1) \<le> c - 1" using fl(2) m(2) by simp
  then have "(of_int (2 ^ (k - 1)) :: rat) \<le> of_int (c - 1)" by (simp only: of_int_le_iff)
  then have "(2::rat) ^ (k - 1) \<le> of_int c - 1" by simp
  from this cx(2) have kx: "(2::rat) ^ (k - 1) < x" by (rule le_less_trans)
  have "1 / x < 1 / 2 ^ (k - 1)" using kx by (simp add: frac_less2)
  moreover have "binade q + 1 = - int (k - 1)" using e fl(1) by simp
  then have "2 powi (binade q + 1) = (1::rat) / 2 ^ (k - 1)"
    by (simp only: power_int_minus_divide power_int_of_nat)
  ultimately show "q < 2 powi (binade q + 1)" by (simp only: x(2) [symmetric])
qed

lemma binade_bounds:
  assumes "0 < q"
  shows "2 powi binade q \<le> q" and "q < 2 powi (binade q + 1)"
  using assms binade_ge1 [of q] binade_lt1 [of q] by (cases "1 \<le> q"; simp)+


lemma round_half_even_range:
  "\<lfloor>x\<rfloor> \<le> round_half_even x" "round_half_even x \<le> \<lfloor>x\<rfloor> + 1"
  by (simp_all add: round_half_even_def Let_def)

lemma round_half_even_of_int: "round_half_even (of_int n) = n"
  by (simp add: round_half_even_def)

lemma round_half_even_le:
  assumes "x \<le> of_int n"
  shows "round_half_even x \<le> n"
proof (cases "x = of_int n")
  case True
  then show ?thesis by (simp add: round_half_even_of_int)
next
  case False
  with assms have "x < of_int n" by simp
  then have "\<lfloor>x\<rfloor> < n" by (simp only: floor_less_iff)
  with round_half_even_range(2) [of x] show ?thesis by linarith
qed

lemma round_half_even_nonneg: "0 \<le> x \<Longrightarrow> 0 \<le> round_half_even x"
  using round_half_even_range(1) [of x] by (simp add: order_trans [of 0 "\<lfloor>x\<rfloor>"])

lemma pow2_cancel: "(2::rat) powi (52 - e) * 2 powi (e - 52) = 1"
  by (simp add: power_int_add [symmetric])

lemma nearest_double_nonneg: "0 < q \<Longrightarrow> 0 \<le> nearest_double q"
  by (simp add: nearest_double_def Let_def round_half_even_nonneg)

lemma nearest_double_le_binade:
  assumes "0 < q"
  shows "nearest_double q \<le> 2 powi (binade q + 1)"
proof -
  define e where "e = binade q"
  have "q * 2 powi (52 - e) < 2 powi (e + 1) * 2 powi (52 - e)"
    using binade_bounds(2) [OF assms] by (simp add: e_def)
  also have "\<dots> = 2 powi 53" by (simp add: power_int_add [symmetric])
  also have "\<dots> = of_int (2 ^ 53)" by simp
  finally have "round_half_even (q * 2 powi (52 - e)) \<le> 2 ^ 53"
    by (intro round_half_even_le) simp
  then have "(of_int (round_half_even (q * 2 powi (52 - e))) :: rat) \<le> of_int (2 ^ 53)"
    by (simp only: of_int_le_iff)
  then have "of_int (round_half_even (q * 2 powi (52 - e))) * 2 powi (e - 52)
               \<le> (of_int (2 ^ 53) :: rat) * 2 powi (e - 52)"
    by (intro mult_right_mono) simp_all
  also have "(of_int (2 ^ 53) :: rat) * 2 powi (e - 52) = 2 powi 53 * 2 powi (e - 52)" by simp
  also have "\<dots> = 2 powi (53 + (e - 52))" by (rule power_int_add [symmetric]) simp
  also have "53 + (e - 52) = e + 1" by simp
  finally show ?thesis by (simp add: nearest_double_def Let_def e_def)
qed

lemma binade_mono:
  assumes "0 < x" "x \<le> y"
  shows "binade x \<le> binade y"
proof (rule ccontr)
  assume "\<not> binade x \<le> binade y"
  then have "binade y + 1 \<le> binade x" by simp
  then have "(2::rat) powi (binade y + 1) \<le> 2 powi binade x"
    by (intro power_int_increasing) simp_all
  also have "\<dots> \<le> x" using assms(1) by (rule binade_bounds(1))
  also have "\<dots> \<le> y" by (rule assms(2))
  finally show False using binade_bounds(2) [of y] assms by simp
qed

lemma nearest_double_le:
  assumes x: "0 < x" "x \<le> b" and b: "b * 2 powi (52 - binade b) = of_int n"
  shows "nearest_double x \<le> b"
proof (cases "binade x = binade b")
  case True
  define e where "e = binade b"
  have "x * 2 powi (52 - e) \<le> b * 2 powi (52 - e)"
    using x(2) by (intro mult_right_mono) simp_all
  then have "round_half_even (x * 2 powi (52 - e)) \<le> n"
    by (intro round_half_even_le) (simp add: b [folded e_def])
  then have "(of_int (round_half_even (x * 2 powi (52 - e))) :: rat) \<le> of_int n"
    by (simp only: of_int_le_iff)
  then have "of_int (round_half_even (x * 2 powi (52 - e))) * 2 powi (e - 52)
               \<le> (of_int n :: rat) * 2 powi (e - 52)"
    by (intro mult_right_mono) simp_all
  also have "\<dots> = b * (2 powi (52 - e) * 2 powi (e - 52))"
    by (simp add: b [folded e_def, symmetric])
  also have "\<dots> = b" by (simp only: pow2_cancel mult_1_right)
  finally show ?thesis by (simp add: nearest_double_def Let_def True e_def)
next
  case False
  from x have "0 < b" by simp
  from False binade_mono [OF x] have "binade x + 1 \<le> binade b" by simp
  then have "(2::rat) powi (binade x + 1) \<le> 2 powi binade b"
    by (intro power_int_increasing) simp_all
  with nearest_double_le_binade [OF x(1)] binade_bounds(1) [OF \<open>0 < b\<close>]
  show ?thesis by linarith
qed

lemma binade_1: "binade 1 = 0"
  by (simp add: binade_def compute_floorlog)

lemma binade_100: "binade 100 = 6"
  by (simp add: binade_def compute_floorlog)

lemma to_double_unit: "0 \<le> q \<Longrightarrow> q \<le> 1 \<Longrightarrow> 0 \<le> to_double q \<and> to_double q \<le> 1"
  using nearest_double_le [of q 1 "2 ^ 52"] nearest_double_nonneg [of q]
  by (auto simp: to_double_def binade_1)

lemma to_double_hundred:
  "0 \<le> q \<Longrightarrow> q \<le> 100 \<Longrightarrow> 0 \<le> to_double q \<and> to_double q \<le> 100"
  using nearest_double_le [of q 100 "100 * 2 ^ 46"] nearest_double_nonneg [of q]
  by (auto simp: to_double_def binade_100)

lemma round2_unit:
  assumes "0 \<le> q" "q \<le> 1"
  shows "\<exists>r. round2 (Fin q) = Fin r \<and> 0 \<le> r \<and> r \<le> 1"
proof -
  define t where "t = to_double (q * 100)"
  define n where "n = \<lfloor>t + 1 / 2\<rfloor>"
  have t: "0 \<le> t \<and> t \<le> 100" unfolding t_def using assms by (intro to_double_hundred) simp_all
  then have "0 \<le> t + 1 / 2" by simp
  then have lo: "0 \<le> n" unfolding n_def by simp
  from t have "t + 1 / 2 < 101" by simp
  then have "n < 101" unfolding n_def by (simp add: floor_less_iff)
  then have hi: "n \<le> 100" by simp
  from lo have "0 \<le> (of_int n :: rat) / 100" by simp
  moreover from hi have "(of_int n :: rat) / 100 \<le> 1" by simp
  ultimately have "0 \<le> to_double (of_int n / 100) \<and> to_double (of_int n / 100) \<le> 1"
    by (rule to_double_unit)
  moreover have "round2 (Fin q) = Fin (to_double (of_int n / 100))" by (simp add: n_def t_def)
  ultimately show ?thesis by blast
qed

lemma js_div_unit:
  assumes "0 < d" "n \<le> d"
  shows "\<exists>q. js_div n d = Fin q \<and> 0 \<le> q \<and> q \<le> 1"
proof -
  have "0 \<le> (of_nat n :: rat) / of_nat d" by simp
  moreover have "(of_nat n :: rat) / of_nat d \<le> 1" using assms by simp
  ultimately have "0 \<le> to_double (of_nat n / of_nat d) \<and> to_double (of_nat n / of_nat d) \<le> 1"
    by (rule to_double_unit)
  with assms(1) show ?thesis by (simp add: js_div_def)
qed

text \<open>
  When no path contains a colon, every pair that \<^verbatim>\<open>coupling\<close> returns is made of two
  paths \<open>a < b\<close> that a qualifying commit touches together, \<^verbatim>\<open>coupled\<close> is the number of
  qualifying commits that touch both, the divisor is positive, and the degree is the
  quotient rounded as the code rounds it, between \<open>0\<close> and \<open>1\<close>.
\<close>

lemma coupling_safe:
  assumes safe: "\<forall>c \<in> set cs. safe_commit c"
    and mem: "p \<in> set (coupling cs topN minC mx)"
  shows "\<exists>a b. fileA p = Some a \<and> fileB p = Some b \<and> a < b
     \<and> (\<exists>c \<in> set cs. qualifies mx c \<and> a \<in> set (commit_paths c) \<and> b \<in> set (commit_paths c))
     \<and> coupled p = qualifying_with mx cs [a, b]
     \<and> 0 < min (qualifying_with mx cs [a]) (qualifying_with mx cs [b])
     \<and> degree p = round2 (js_div (coupled p)
                        (min (qualifying_with mx cs [a]) (qualifying_with mx cs [b])))
     \<and> (\<exists>r. degree p = Fin r \<and> 0 \<le> r \<and> r \<le> 1)"
proof -
  let ?st = "coupling_loop mx ([], []) cs"
  have "set (coupling cs topN minC mx) \<subseteq> set (js_sort (\<lambda>a b. cmp_nonpos (coupling_cmp a b))
           (map (coupling_pair (snd ?st)) (filter (\<lambda>kc. int (snd kc) \<ge> minC) (fst ?st))))"
    unfolding coupling_def Let_def by (rule set_slice0_subset)
  with mem obtain kc where kc: "kc \<in> set (fst ?st)" and p: "p = coupling_pair (snd ?st) kc"
    by (auto simp: set_js_sort)
  from kc have "fst kc \<in> set (map fst (fst ?st))" by simp
  then obtain c where c: "c \<in> set cs" "qualifies mx c" "fst kc \<in> set (pair_keys (commit_paths c))"
    using keys_coupling_loop [of "fst kc" mx "([], [])" cs] by auto
  then obtain a b where ab: "fst kc = pair_key a b" "a \<in> set (commit_paths c)"
      "b \<in> set (commit_paths c)" "a < b"
    using pair_keys_form [OF sorted_commit_paths distinct_commit_paths] by blast
  from safe c(1) ab(2,3) have sa: "safe_path a" and sb: "safe_path b"
    using safe_commit_paths by blast+
  have "distinct (map fst (fst ?st))" by (rule distinct_keys_coupling_loop) simp
  with kc have "map_get (fst ?st) (fst kc) = Some (snd kc)"
    by (intro map_get_of_mem) simp_all
  then have "snd kc = count_of (fst ?st) (pair_key a b)"
    by (simp add: count_of_def ab(1))
  also have "\<dots> = qualifying_with mx cs [a, b]"
    using coupling_loop_pairs [OF sa sb ab(4) safe, of mx "([], [])"]
    by (simp add: count_of_def qualifying_with_def)
  finally have n: "snd kc = qualifying_with mx cs [a, b]" .
  have ta: "count_or_0 (snd ?st) (Some a) = qualifying_with mx cs [a]"
    using coupling_loop_fileCounts [of mx "([], [])" cs a]
    by (simp add: count_or_0_def count_of_def qualifying_with_def)
  have tb: "count_or_0 (snd ?st) (Some b) = qualifying_with mx cs [b]"
    using coupling_loop_fileCounts [of mx "([], [])" cs b]
    by (simp add: count_or_0_def count_of_def qualifying_with_def)
  have pos: "0 < qualifying_with mx cs [a, b]"
    unfolding qualifying_with_def length_filter_pos using c(1,2) ab(2,3) by auto
  have le_a: "qualifying_with mx cs [a, b] \<le> qualifying_with mx cs [a]"
    unfolding qualifying_with_def by (rule length_filter_mono) auto
  have le_b: "qualifying_with mx cs [a, b] \<le> qualifying_with mx cs [b]"
    unfolding qualifying_with_def by (rule length_filter_mono) auto
  let ?m = "min (qualifying_with mx cs [a]) (qualifying_with mx cs [b])"
  from pos le_a le_b have m: "0 < ?m" "qualifying_with mx cs [a, b] \<le> ?m" by simp_all
  have fa: "fileA p = Some a" and fb: "fileB p = Some b" and cp: "coupled p = snd kc"
    by (simp_all add: p coupling_pair_def Let_def ab(1) key_split_pair_key [OF sa sb])
  have deg: "degree p = round2 (js_div (snd kc) ?m)"
    by (simp add: p coupling_pair_def Let_def ab(1) key_split_pair_key [OF sa sb] ta tb)
  from m obtain q where q: "js_div (snd kc) ?m = Fin q" "0 \<le> q" "q \<le> 1"
    unfolding n using js_div_unit [of ?m "qualifying_with mx cs [a, b]"] by blast
  from round2_unit [OF q(2,3)] deg q(1)
  have unit: "\<exists>r. degree p = Fin r \<and> 0 \<le> r \<and> r \<le> 1" by simp
  from fa fb ab(4) c(1,2) ab(2,3) cp n m(1) deg unit show ?thesis
    by (intro exI [of _ a] exI [of _ b] conjI bexI [of _ c]) simp_all
qed

subsection \<open>Runs only read\<close>

text \<open>An iteration reads the objects in order and leaves the world as it is.\<close>


lemma for_files_refines:
  "for_files body s as w = (map_option (foldl body s) (load_files (w_heap w) as), w)"
proof (induction as arbitrary: s)
  case Nil
  then show ?case by simp
next
  case (Cons a as)
  show ?case
    by (simp add: read_file_def Cons.IH option.map_comp o_def split: option.splits jsobj.splits)
qed

lemma load_record_fields:
  "load_record h c = Some x \<Longrightarrow> author x = r_author c \<and> date x = r_date c"
  by (auto simp: load_record_def split: option.splits jsobj.splits)

lemma for_files_of_refines:
  "for_files_of body s c w =
     (map_option (\<lambda>x. foldl body s (files x)) (load_record (w_heap w) c), w)"
  by (simp add: for_files_of_def read_array_def for_files_refines load_record_def
      option.map_comp o_def split: option.splits jsobj.splits)

lemma for_commits_refines:
  assumes "\<And>s c w. body s c w = (map_option (g s) (load_record (w_heap w) c), w)"
  shows "for_commits body s as w = (map_option (foldl g s) (load_records (w_heap w) as), w)"
proof (induction as arbitrary: s)
  case Nil
  then show ?case by simp
next
  case (Cons a as)
  show ?case
  proof (cases "w_heap w a")
    case None
    then show ?thesis by (simp add: read_record_def)
  next
    case (Some obj)
    show ?thesis
    proof (cases obj)
      case (CommitObject c)
      show ?thesis
      proof (cases "load_record (w_heap w) c")
        case None
        with Some CommitObject assms [of s c w] show ?thesis
          by (simp add: read_record_def)
      next
        case (Some x)
        with \<open>w_heap w a = Some obj\<close> CommitObject assms [of s c w] Cons.IH [of "g s x"]
        show ?thesis
          by (simp add: read_record_def option.map_comp o_def)
      qed
    next
      case (Array xs)
      with Some show ?thesis by (simp add: read_record_def)
    next
      case (FileObject f)
      with Some show ?thesis by (simp add: read_record_def)
    qed
  qed
qed

lemma for_commits_of_refines:
  assumes "\<And>s c w. body s c w = (map_option (g s) (load_record (w_heap w) c), w)"
  shows "for_commits_of body s cref w = (map_option (foldl g s) (load_commits (w_heap w) cref), w)"
  by (simp add: for_commits_of_def read_array_def load_commits_def for_commits_refines [OF assms]
      split: option.splits jsobj.splits)

lemma map_option_record_cong:
  assumes "\<And>x. load_record h c = Some x \<Longrightarrow> f x = g x"
  shows "map_option f (load_record h c) = map_option g (load_record h c)"
  using assms by (cases "load_record h c") simp_all





lemma codeAge_files_foldl:
  "codeAge_files d st fs =
     foldl (\<lambda>st f. (set_if_absent (fst st) (path f) d, set_if_absent (snd st) (path f) d)) st fs"
  by (induction fs arbitrary: st) simp_all

lemma codeAge_loop_foldl:
  "codeAge_loop st cs = foldl (\<lambda>st c. codeAge_files (date c) st (files c)) st cs"
  by (induction cs arbitrary: st) simp_all









lemma load_record_files_paths:
  "load_record h c = Some x \<Longrightarrow> sort (set_from [] (map path (files x))) = commit_paths x"
  by (simp add: commit_paths_def)



lemma codeAge_run_refines:
  "codeAge_run cref w =
     (map_option (codeAge (w_parse w) (w_clock w)) (load_commits (w_heap w) cref), w)"
proof -
  have body: "for_files_of
                (\<lambda>st f. (set_if_absent (fst st) (path f) (r_date c),
                          set_if_absent (snd st) (path f) (r_date c))) st c w =
      (map_option (\<lambda>x. codeAge_files (date x) st (files x)) (load_record (w_heap w) c), w)"
    for st c w
    unfolding for_files_of_refines
    by (simp add: codeAge_files_foldl load_record_fields cong: map_option_record_cong)
  show ?thesis
    unfolding codeAge_run_def for_commits_of_refines [of _ _, OF body]
    by (simp add: codeAge_def codeAge_loop_foldl read_clock_def Let_def split: option.splits)
qed



lemma load_a: "load_commits heap_a 0 = Some [commit_abc1234]"
  by (simp add: load_commits_def load_record_def heap_a_def commit_abc1234_def)


section \<open>What the analyzers guarantee\<close>




text \<open>
  The same heap and the same reference, read one day and ten days after the commit: the two
  runs of \<^verbatim>\<open>codeAge\<close> differ.
\<close>

lemma codeAge_run_depends_on_clock:
  "load_commits (w_heap world_a) 0 = load_commits (w_heap world_late) 0
   \<and> fst (codeAge_run 0 world_a) \<noteq> fst (codeAge_run 0 world_late)"
  by (simp add: codeAge_run_refines world_a_def world_late_def load_a eval_defs Let_def)

text \<open>
  C5. The list returned by \<^verbatim>\<open>hotspots\<close> is sorted: of two consecutive entries the first has
  at least as many commits as the second and, when they have as many, at least as much
  churn.
\<close>

theorem hotspots_sorted_desc:
  "\<forall>i. Suc i < length (hotspots cs topN) \<longrightarrow>
     h_commits (hotspots cs topN ! i) \<ge> h_commits (hotspots cs topN ! Suc i)
     \<and> (h_commits (hotspots cs topN ! i) = h_commits (hotspots cs topN ! Suc i)
          \<longrightarrow> h_churn (hotspots cs topN ! i) \<ge> h_churn (hotspots cs topN ! Suc i))"
proof (intro allI impI)
  fix i assume i: "Suc i < length (hotspots cs topN)"
  have "hotspots_cmp (hotspots cs topN ! i) (hotspots cs topN ! Suc i) \<le> 0"
    using hotspots_sorted [of cs topN] i by (simp add: sorted_wrt_iff_nth_less)
  then show "h_commits (hotspots cs topN ! i) \<ge> h_commits (hotspots cs topN ! Suc i)
     \<and> (h_commits (hotspots cs topN ! i) = h_commits (hotspots cs topN ! Suc i)
          \<longrightarrow> h_churn (hotspots cs topN ! i) \<ge> h_churn (hotspots cs topN ! Suc i))"
    by (auto simp: hotspots_cmp_le)
qed

theorem hotspots_sorted_desc_witness:
  "Suc 2 < length (hotspots RAW_LOG_commits 20)
   \<and> h_commits (hotspots RAW_LOG_commits 20 ! 2) = h_commits (hotspots RAW_LOG_commits 20 ! Suc 2)
   \<and> h_churn (hotspots RAW_LOG_commits 20 ! 2) \<ge> h_churn (hotspots RAW_LOG_commits 20 ! Suc 2)"
proof -
  have len: "Suc 2 < length (hotspots RAW_LOG_commits 20)"
    by (simp add: eval_defs)
  have eq: "h_commits (hotspots RAW_LOG_commits 20 ! 2)
              = h_commits (hotspots RAW_LOG_commits 20 ! Suc 2)"
    by (simp add: eval_defs)
  from hotspots_sorted_desc [of RAW_LOG_commits 20] len eq
  show ?thesis by blast
qed

text \<open>
  C6. \<^verbatim>\<open>analyzeAll\<close> on the empty commit sequence, at any time of analysis: the summary is
  zero commits, zero authors and no date range, every list is empty, and the code-age
  report has five zero buckets, no files and empty \<^verbatim>\<open>oldest\<close> and \<^verbatim>\<open>freshest\<close> lists.
\<close>

theorem analyzeAll_empty:
  "analyzeAll parse now [] =
     \<lparr>summary = \<lparr>totalCommits = 0, totalAuthors = 0, dateRange = None\<rparr>,
      r_hotspots = [], r_coupling = [],
      r_codeAge = \<lparr>buckets = \<lparr>fresh = 0, recent = 0, aging = 0, stale = 0, ancient = 0\<rparr>,
                   oldest = [], freshest = [], totalFiles = 0\<rparr>,
      r_authors = [], r_knowledgeSilos = []\<rparr>"
  by (simp add: eval_defs)

text \<open>
  C8. The five buckets of \<^verbatim>\<open>codeAge\<close> sum to \<^verbatim>\<open>totalFiles\<close>, which is the number of distinct
  paths named by the commits: every path falls into exactly one bucket, at any time of
  analysis and whatever its date parses to.
\<close>

theorem codeAge_buckets_sum:
  "bucket_sum (buckets (codeAge parse now cs)) = totalFiles (codeAge parse now cs)
   \<and> totalFiles (codeAge parse now cs) = card (set (all_paths cs))"
proof
  show "bucket_sum (buckets (codeAge parse now cs)) = totalFiles (codeAge parse now cs)"
    by (simp add: codeAge_def Let_def bucket_sum_files) (simp add: bucket_sum_def)
  have "distinct (set_from [] (all_paths cs))" by (simp add: distinct_set_from)
  then have "length (set_from [] (all_paths cs)) = card (set (set_from [] (all_paths cs)))"
    by (simp add: distinct_card)
  then show "totalFiles (codeAge parse now cs) = card (set (all_paths cs))"
    by (simp add: codeAge_totalFiles set_set_from)
qed

text \<open>
  C10. Output keys are unique: a path occurs at most once in the list of \<^verbatim>\<open>hotspots\<close> and at
  most once in the list of \<^verbatim>\<open>knowledgeSilos\<close>, and an author name at most once in the list
  of \<^verbatim>\<open>authors\<close>.
\<close>

theorem output_keys_unique:
  "distinct (map h_path (hotspots cs topH)) \<and> distinct (map s_path (knowledgeSilos cs mc))
   \<and> distinct (map name (authors cs topA))"
  by (simp add: hotspots_paths_distinct silos_paths_distinct authors_names_distinct)

section \<open>Where the code departs from its description\<close>

text \<open>
  C1. The \<^verbatim>\<open>commits\<close> field of \<^verbatim>\<open>hotspots\<close> and of \<^verbatim>\<open>knowledgeSilos\<close> is incremented once per
  change record, not once per commit. On the fixture of the test-suite three commits touch
  \<^verbatim>\<open>src/utils.js\<close>, one of them with two change records, and both analyzers report \<open>4\<close>.
\<close>

theorem commits_field_counts_change_records:
  "commits_touching RAW_LOG_commits ''src/utils.js'' = 3
   \<and> map (\<lambda>e. (h_path e, h_commits e)) (hotspots RAW_LOG_commits 20)
       = [(''src/app.js'', 6), (''src/utils.js'', 4), (''README.md'', 2), (''config.json'', 2),
          (''src/app.test.js'', 1)]
   \<and> knowledgeSilos RAW_LOG_commits 3
       = [\<lparr>s_path = ''src/utils.js'', s_author = ''Alice'', s_commits = 4\<rparr>]"
  by code_simp

text \<open>
  C3. With a path that contains \<^verbatim>\<open>:::\<close>, the key of a pair splits into pieces that are not
  the two paths; their counts are looked up as \<open>0\<close>, the divisor \<^verbatim>\<open>Math.min(totalA, totalB)\<close>
  is \<open>0\<close> and the degree is \<^verbatim>\<open>Infinity\<close>.
\<close>

theorem coupling_degree_infinite:
  "coupling [commit_colons] 20 1 30
     = [\<lparr>fileA = Some ''a'', fileB = Some ''b'', coupled = 1, degree = PosInf\<rparr>]"
  by (simp add: commit_colons_def eval_defs)

text \<open>
  C4. The threshold of \<^verbatim>\<open>knowledgeSilos\<close> is compared with the \<^verbatim>\<open>commits\<close> field, which counts
  change records: on the fixture of the test-suite, with \<^verbatim>\<open>minCommits = 4\<close>, the analyzer
  returns \<^verbatim>\<open>src/utils.js\<close>, which only three commits touch.
\<close>

theorem knowledgeSilos_threshold_on_change_records:
  "knowledgeSilos RAW_LOG_commits 4
     = [\<lparr>s_path = ''src/utils.js'', s_author = ''Alice'', s_commits = 4\<rparr>]
   \<and> commits_touching RAW_LOG_commits ''src/utils.js'' = 3"
  by code_simp

text \<open>
  C7. Two different pairs of one commit can share a key: in a commit that touches
  \<^verbatim>\<open>a\<close>, \<^verbatim>\<open>a:::b\<close>, \<^verbatim>\<open>b:::c\<close> and \<^verbatim>\<open>c\<close>, the pairs (\<^verbatim>\<open>a\<close>, \<^verbatim>\<open>b:::c\<close>) and (\<^verbatim>\<open>a:::b\<close>, \<^verbatim>\<open>c\<close>) both
  increment the counter under \<^verbatim>\<open>a:::b:::c\<close>, which this one qualifying commit takes from
  nothing to \<open>2\<close>.
\<close>

theorem coupling_pair_counted_twice:
  "commit_paths commit_collision = [''a'', ''a:::b'', ''b:::c'', ''c'']
   \<and> map_get (fst (coupling_commit 30 ([], []) commit_collision)) (pair_key ''a'' ''b:::c'')
       = Some 2"
  by (simp add: commit_collision_def eval_defs)

text \<open>
  C9. The commit touches the two paths \<^verbatim>\<open>b:::a\<close> and \<^verbatim>\<open>c\<close>; the pair that \<^verbatim>\<open>coupling\<close> returns
  has \<^verbatim>\<open>fileA = 'b'\<close> and \<^verbatim>\<open>fileB = 'a'\<close>, neither of them a path of the commit, and
  \<^verbatim>\<open>fileA\<close> is not the smaller one.
\<close>

theorem coupling_files_not_paths:
  "commit_paths commit_colons_rev = [''b:::a'', ''c'']
   \<and> map (\<lambda>p. (fileA p, fileB p)) (coupling [commit_colons_rev] 20 1 30)
       = [(Some ''b'', Some ''a'')]
   \<and> \<not> ''b'' < ''a''"
  by (simp add: commit_colons_rev_def eval_defs)

end
